theory Spec2Isabelle
  imports Main
begin

section \<open>The SIL fragment the pass works on\<close>

text \<open>
  Modelled from the spec: the intermediate representation itself (instructions,
  values, operands, ownership qualifiers, argument conventions; section 3 of the
  specification) is declared in headers that are not among the sources. The pass
  of \<^verbatim>\<open>TempRValueElimination.cpp\<close> works on a SIL function: basic blocks holding
  instructions in order, every instruction with its operands. An instruction is
  identified by a number (its address in the C++ code), a value is either the
  null value \<^verbatim>\<open>SILValue()\<close>, a function argument or the result of an
  instruction.
\<close>

type_synonym ident = nat

datatype sil_value = NullValue | FunctionArgument nat | InstResult ident

datatype load_qualifier = LoadUnqualified | LoadTake | LoadCopy | LoadTrivial

datatype store_qualifier = StoreUnqualified | StoreInit | StoreAssign | StoreTrivial

datatype access_kind = AccessInit | AccessRead | AccessModify | AccessDeinit

datatype existential_access = Immutable | Mutable

datatype arg_convention =
    Indirect_In | Indirect_In_Constant | Indirect_In_Guaranteed
  | Indirect_Inout | Indirect_InoutAliasable | Indirect_Out
  | Direct_Owned | Direct_Unowned | Direct_Deallocating | Direct_Guaranteed

text \<open>
  Modelled from the spec: the predicates of \<^verbatim>\<open>SILArgumentConvention\<close> (guaranteed:
  read without consuming; inout: passed by mutable reference; indirect: passed
  by address).
\<close>

fun isGuaranteedConvention :: "arg_convention \<Rightarrow> bool" where
  "isGuaranteedConvention Indirect_In_Guaranteed = True"
| "isGuaranteedConvention Direct_Guaranteed = True"
| "isGuaranteedConvention _ = False"

fun isInoutConvention :: "arg_convention \<Rightarrow> bool" where
  "isInoutConvention Indirect_Inout = True"
| "isInoutConvention Indirect_InoutAliasable = True"
| "isInoutConvention _ = False"

fun isIndirectConvention :: "arg_convention \<Rightarrow> bool" where
  "isIndirectConvention Indirect_In = True"
| "isIndirectConvention Indirect_In_Constant = True"
| "isIndirectConvention Indirect_In_Guaranteed = True"
| "isIndirectConvention Indirect_Inout = True"
| "isIndirectConvention Indirect_InoutAliasable = True"
| "isIndirectConvention Indirect_Out = True"
| "isIndirectConvention _ = False"

text \<open>
  The instruction kinds the pass tells apart, each with its operands and the
  attributes the pass reads. \<open>AllocStackInst d\<close>: \<open>d\<close> is \<^verbatim>\<open>hasDynamicLifetime()\<close>.
  \<open>CopyAddrInst src dest take init\<close>: \<^verbatim>\<open>isTakeOfSrc()\<close> and
  \<^verbatim>\<open>isInitializationOfDest()\<close>. \<open>StoreInst src dest q\<close>.
  \<open>UncheckedTakeEnumDataAddrInst a opt\<close>: \<open>opt\<close> says that the operand's type is an
  Optional. An apply carries its callee and its arguments, each argument with the
  convention the callee declares for it. Every other kind is \<open>OtherInst\<close>.
\<close>

datatype inst_kind =
    AllocStackInst bool
  | DeallocStackInst sil_value
  | CopyAddrInst sil_value sil_value bool bool
  | StoreInst sil_value sil_value store_qualifier
  | LoadInst sil_value load_qualifier
  | LoadBorrowInst sil_value
  | DestroyAddrInst sil_value
  | BeginAccessInst sil_value access_kind
  | EndAccessInst sil_value
  | OpenExistentialAddrInst sil_value existential_access
  | UncheckedTakeEnumDataAddrInst sil_value bool
  | StructElementAddrInst sil_value
  | TupleElementAddrInst sil_value
  | ApplyInst sil_value "(sil_value \<times> arg_convention) list"
  | TryApplyInst sil_value "(sil_value \<times> arg_convention) list"
  | FixLifetimeInst sil_value
  | CopyValueInst sil_value
  | DestroyValueInst sil_value
  | OtherInst "sil_value list"

text \<open>
  An instruction: its identity, its kind and its type-dependent operands (they
  follow the kind's own operands in the operand list).
\<close>

datatype inst = Inst (instId: ident) (instKind: inst_kind) (typeDependentOperands: "sil_value list")

type_synonym block = "inst list"

type_synonym func = "block list"

text \<open>A use: the using instruction and the number of the operand.\<close>

datatype operand = Operand (getUser: ident) (operandNumber: nat)

fun kindOperands :: "inst_kind \<Rightarrow> sil_value list" where
  "kindOperands (AllocStackInst d) = []"
| "kindOperands (DeallocStackInst a) = [a]"
| "kindOperands (CopyAddrInst s d t i) = [s, d]"
| "kindOperands (StoreInst s d q) = [s, d]"
| "kindOperands (LoadInst a q) = [a]"
| "kindOperands (LoadBorrowInst a) = [a]"
| "kindOperands (DestroyAddrInst a) = [a]"
| "kindOperands (BeginAccessInst a k) = [a]"
| "kindOperands (EndAccessInst a) = [a]"
| "kindOperands (OpenExistentialAddrInst a k) = [a]"
| "kindOperands (UncheckedTakeEnumDataAddrInst a opt) = [a]"
| "kindOperands (StructElementAddrInst a) = [a]"
| "kindOperands (TupleElementAddrInst a) = [a]"
| "kindOperands (ApplyInst c args) = c # map fst args"
| "kindOperands (TryApplyInst c args) = c # map fst args"
| "kindOperands (FixLifetimeInst a) = [a]"
| "kindOperands (CopyValueInst a) = [a]"
| "kindOperands (DestroyValueInst a) = [a]"
| "kindOperands (OtherInst vs) = vs"

fun withKindOperands :: "inst_kind \<Rightarrow> sil_value list \<Rightarrow> inst_kind" where
  "withKindOperands (AllocStackInst d) vs = AllocStackInst d"
| "withKindOperands (DeallocStackInst a) vs = DeallocStackInst (vs ! 0)"
| "withKindOperands (CopyAddrInst s d t i) vs = CopyAddrInst (vs ! 0) (vs ! 1) t i"
| "withKindOperands (StoreInst s d q) vs = StoreInst (vs ! 0) (vs ! 1) q"
| "withKindOperands (LoadInst a q) vs = LoadInst (vs ! 0) q"
| "withKindOperands (LoadBorrowInst a) vs = LoadBorrowInst (vs ! 0)"
| "withKindOperands (DestroyAddrInst a) vs = DestroyAddrInst (vs ! 0)"
| "withKindOperands (BeginAccessInst a k) vs = BeginAccessInst (vs ! 0) k"
| "withKindOperands (EndAccessInst a) vs = EndAccessInst (vs ! 0)"
| "withKindOperands (OpenExistentialAddrInst a k) vs = OpenExistentialAddrInst (vs ! 0) k"
| "withKindOperands (UncheckedTakeEnumDataAddrInst a opt) vs =
     UncheckedTakeEnumDataAddrInst (vs ! 0) opt"
| "withKindOperands (StructElementAddrInst a) vs = StructElementAddrInst (vs ! 0)"
| "withKindOperands (TupleElementAddrInst a) vs = TupleElementAddrInst (vs ! 0)"
| "withKindOperands (ApplyInst c args) vs = ApplyInst (vs ! 0) (zip (tl vs) (map snd args))"
| "withKindOperands (TryApplyInst c args) vs =
     TryApplyInst (vs ! 0) (zip (tl vs) (map snd args))"
| "withKindOperands (FixLifetimeInst a) vs = FixLifetimeInst (vs ! 0)"
| "withKindOperands (CopyValueInst a) vs = CopyValueInst (vs ! 0)"
| "withKindOperands (DestroyValueInst a) vs = DestroyValueInst (vs ! 0)"
| "withKindOperands (OtherInst ws) vs = OtherInst vs"

definition getAllOperands :: "inst \<Rightarrow> sil_value list" where
  "getAllOperands i = kindOperands (instKind i) @ typeDependentOperands i"

text \<open>
  Rewrites the operand list of an instruction by \<open>g\<close> (a function on operand lists
  that keeps the length): the kind's operands first, the type-dependent ones after.
\<close>

definition updateOperands :: "(sil_value list \<Rightarrow> sil_value list) \<Rightarrow> inst \<Rightarrow> inst" where
  "updateOperands g i =
     (let vs = g (getAllOperands i); n = length (kindOperands (instKind i))
      in Inst (instId i) (withKindOperands (instKind i) (take n vs)) (drop n vs))"

definition isTypeDependentOperand :: "inst \<Rightarrow> nat \<Rightarrow> bool" where
  "isTypeDependentOperand i n = (length (kindOperands (instKind i)) \<le> n)"

subsection \<open>Reading the function\<close>

definition lookupInst :: "func \<Rightarrow> ident \<Rightarrow> inst option" where
  "lookupInst f i = find (\<lambda>x. instId x = i) (concat f)"

text \<open>\<^verbatim>\<open>getParent()\<close>: the index of the block that holds the instruction.\<close>

definition getParent :: "func \<Rightarrow> ident \<Rightarrow> nat option" where
  "getParent f i = find (\<lambda>b. list_ex (\<lambda>x. instId x = i) (f ! b)) [0..<length f]"

text \<open>The instructions of that block (none when no block holds the instruction).\<close>

definition getBlock :: "func \<Rightarrow> ident \<Rightarrow> block" where
  "getBlock f i =
     (case find (list_ex (\<lambda>x. instId x = i)) f of None \<Rightarrow> [] | Some b \<Rightarrow> b)"

text \<open>
  The instructions of the block of \<open>i\<close> that follow \<open>i\<close>, in order, and the ones
  before it, the nearest first.
\<close>

definition instsAfter :: "func \<Rightarrow> ident \<Rightarrow> inst list" where
  "instsAfter f i = tl (dropWhile (\<lambda>x. instId x \<noteq> i) (getBlock f i))"

definition instsBefore :: "func \<Rightarrow> ident \<Rightarrow> inst list" where
  "instsBefore f i = rev (takeWhile (\<lambda>x. instId x \<noteq> i) (getBlock f i))"

text \<open>\<^verbatim>\<open>std::next\<close> and \<^verbatim>\<open>std::prev\<close> of an instruction's iterator; \<open>None\<close> is the
  block's end, respectively says that the instruction is the first of its block.\<close>

definition nextInst :: "func \<Rightarrow> ident \<Rightarrow> ident option" where
  "nextInst f i = (case instsAfter f i of [] \<Rightarrow> None | x # _ \<Rightarrow> Some (instId x))"

definition prevInst :: "func \<Rightarrow> ident \<Rightarrow> inst option" where
  "prevInst f i = (case instsBefore f i of [] \<Rightarrow> None | x # _ \<Rightarrow> Some x)"

text \<open>
  Modelled from the spec: the use list of a value (an ordered set of operands
  pointing to it): every operand that holds the value, taken in program order.
\<close>

definition usesIn :: "sil_value \<Rightarrow> inst \<Rightarrow> operand list" where
  "usesIn v i =
     map (Operand (instId i))
       (filter (\<lambda>n. getAllOperands i ! n = v) [0..<length (getAllOperands i)])"

definition getUses :: "func \<Rightarrow> sil_value \<Rightarrow> operand list" where
  "getUses f v = concat (map (usesIn v) (concat f))"

subsection \<open>Changing the function\<close>

text \<open>
  Modelled from the spec: the mutation primitives of the representation (section
  6: redirect an operand to a new value, erase an instruction, insert a new
  instruction at a given position), which the pass calls and the sources do not
  hold.
\<close>

definition mapInsts :: "(inst \<Rightarrow> inst) \<Rightarrow> func \<Rightarrow> func" where
  "mapInsts g f = map (map g) f"

text \<open>\<^verbatim>\<open>Operand::set\<close>.\<close>

definition setOperand :: "func \<Rightarrow> operand \<Rightarrow> sil_value \<Rightarrow> func" where
  "setOperand f u v =
     mapInsts (\<lambda>i. if instId i = getUser u
                    then updateOperands (\<lambda>vs. vs[operandNumber u := v]) i else i) f"

definition dropAllReferences :: "func \<Rightarrow> ident \<Rightarrow> func" where
  "dropAllReferences f u =
     mapInsts (\<lambda>i. if instId i = u then updateOperands (map (\<lambda>_. NullValue)) i else i) f"

definition replaceAllUsesWith :: "func \<Rightarrow> sil_value \<Rightarrow> sil_value \<Rightarrow> func" where
  "replaceAllUsesWith f old new =
     mapInsts (updateOperands (map (\<lambda>v. if v = old then new else v))) f"

definition eraseFromParent :: "func \<Rightarrow> ident \<Rightarrow> func" where
  "eraseFromParent f u = map (filter (\<lambda>i. instId i \<noteq> u)) f"

text \<open>
  Modelled from the spec: the insertion of a new instruction at a position. A
  builder positioned at an instruction (\<^verbatim>\<open>SILBuilderWithScope builder(inst)\<close>)
  builds before that instruction.
\<close>

fun insertInBlock :: "ident \<Rightarrow> inst \<Rightarrow> block \<Rightarrow> block" where
  "insertInBlock p new [] = []"
| "insertInBlock p new (x # xs) =
     (if instId x = p then new # x # xs else x # insertInBlock p new xs)"

definition insertBefore :: "func \<Rightarrow> ident \<Rightarrow> inst \<Rightarrow> func" where
  "insertBefore f p new = map (insertInBlock p new) f"

text \<open>The identity of a new instruction: one the function does not use yet.\<close>

definition freshId :: "func \<Rightarrow> ident" where
  "freshId f = Suc (fold max (map instId (concat f)) 0)"

definition setKind :: "func \<Rightarrow> ident \<Rightarrow> inst_kind \<Rightarrow> func" where
  "setKind f u k =
     mapInsts (\<lambda>i. if instId i = u then Inst u k (typeDependentOperands i) else i) f"

subsection \<open>The analyses and utilities the pass calls\<close>

text \<open>
  The alias analysis, the lifetime frontier of \<^verbatim>\<open>ValueLifetimeAnalysis\<close>,
  \<^verbatim>\<open>stripAccessMarkers\<close> and the instruction simplifier are not among the
  sources; they are parameters, and the pass is verified for any of them. \<open>computeFrontier f def users\<close> is the
  frontier of the value defined at \<open>def\<close> with the given users, in the mode
  \<^verbatim>\<open>DontModifyCFG\<close>; \<open>None\<close> is its failure. The build is a parameter too:
  \<open>assertionsEnabled\<close> says whether the \<^verbatim>\<open>assert\<close>s of the pass are compiled in (they
  are not under \<^verbatim>\<open>NDEBUG\<close>, where the code goes on past them).
\<close>

record externals =
  mayWriteToMemory :: "func \<Rightarrow> inst \<Rightarrow> sil_value \<Rightarrow> bool"
  isNoAlias :: "func \<Rightarrow> sil_value \<Rightarrow> sil_value \<Rightarrow> bool"
  computeFrontier :: "func \<Rightarrow> ident \<Rightarrow> ident list \<Rightarrow> ident list option"
  stripAccessMarkers :: "func \<Rightarrow> sil_value \<Rightarrow> sil_value"
  simplifyInstruction :: "func \<Rightarrow> ident \<Rightarrow> sil_value"
  replaceAllSimplifiedUsesAndErase :: "func \<Rightarrow> ident \<Rightarrow> sil_value \<Rightarrow> func"
  assertionsEnabled :: bool

text \<open>
  What ends a run other than its result: a failed \<^verbatim>\<open>assert\<close> (in a build that has
  them), the
  \<^verbatim>\<open>llvm_unreachable\<close> of the store rewrite, the end of the fuel that bounds the
  recursion through projections and the loops over a function that changes, and
  an identity that names no instruction of the function (a dangling pointer).
\<close>

datatype error = AssertionFailed | UnreachableExecuted | OutOfFuel | NoSuchInstruction

section \<open>checkNoSourceModification\<close>

text \<open>
  The loop of \<^verbatim>\<open>checkNoSourceModification\<close> over the instructions after the copy,
  with the number of loads found so far (an \<^verbatim>\<open>unsigned\<close> in the C++ code, counted
  up at most once for an instruction of the block; it is a natural number here).
\<close>

fun sourceModificationLoop ::
  "externals \<Rightarrow> func \<Rightarrow> sil_value \<Rightarrow> ident set \<Rightarrow> nat \<Rightarrow> inst list \<Rightarrow> bool" where
  "sourceModificationLoop ext f copySrc useInsts numLoadsFound [] = False"
| "sourceModificationLoop ext f copySrc useInsts numLoadsFound (inst # rest) =
     (let numLoadsFound' =
            (if instId inst \<in> useInsts then numLoadsFound + 1 else numLoadsFound)
      in if numLoadsFound' = card useInsts then True
         else if mayWriteToMemory ext f inst copySrc then False
         else sourceModificationLoop ext f copySrc useInsts numLoadsFound' rest)"

definition checkNoSourceModification ::
  "externals \<Rightarrow> func \<Rightarrow> ident \<Rightarrow> sil_value \<Rightarrow> ident set \<Rightarrow> bool" where
  "checkNoSourceModification ext f copyInst copySrc useInsts =
     sourceModificationLoop ext f copySrc useInsts 0 (instsAfter f copyInst)"

section \<open>collectLoads\<close>

text \<open>
  Modelled from the spec: \<^verbatim>\<open>ApplySite::getArgumentConvention\<close>, the query of the
  argument-passing convention for a given operand. The callee (operand 0) and a
  type-dependent operand are no argument; the C++ function asserts that it is
  asked about an argument.
\<close>

fun getArgumentConvention :: "inst_kind \<Rightarrow> nat \<Rightarrow> arg_convention option" where
  "getArgumentConvention (ApplyInst c args) n =
     (if 0 < n \<and> n \<le> length args then Some (snd (args ! (n - 1))) else None)"
| "getArgumentConvention (TryApplyInst c args) n =
     (if 0 < n \<and> n \<le> length args then Some (snd (args ! (n - 1))) else None)"
| "getArgumentConvention _ n = None"

text \<open>
  The loop over the argument operands of an apply: every argument that the callee
  takes inout must not alias the source address.
\<close>

fun inoutArgumentsNoAlias ::
  "externals \<Rightarrow> func \<Rightarrow> sil_value \<Rightarrow> (sil_value \<times> arg_convention) list \<Rightarrow> bool" where
  "inoutArgumentsNoAlias ext f srcAddr [] = True"
| "inoutArgumentsNoAlias ext f srcAddr ((operand, argConv) # rest) =
     (if isInoutConvention argConv \<and> \<not> isNoAlias ext f operand srcAddr then False
      else inoutArgumentsNoAlias ext f srcAddr rest)"

definition collectApply ::
  "externals \<Rightarrow> func \<Rightarrow> operand \<Rightarrow> inst \<Rightarrow> (sil_value \<times> arg_convention) list \<Rightarrow>
   sil_value \<Rightarrow> ident set \<Rightarrow> error + bool \<times> ident set" where
  "collectApply ext f userOp user args srcAddr loadInsts =
     (case getArgumentConvention (instKind user) (operandNumber userOp) of
        None \<Rightarrow> Inl AssertionFailed
      | Some convention \<Rightarrow>
          if \<not> isGuaranteedConvention convention then Inr (False, loadInsts)
          else if srcAddr = NullValue \<and> isIndirectConvention convention
          then Inr (False, loadInsts)
          else if srcAddr \<noteq> NullValue \<and> \<not> inoutArgumentsNoAlias ext f srcAddr args
          then Inr (False, loadInsts)
          else Inr (True, insert (instId user) loadInsts))"

text \<open>
  \<open>collectLoads fuel ext f userOp user address srcAddr loadInsts\<close>: \<open>user\<close> is the
  instruction of the use \<open>userOp\<close>, \<open>address\<close> the instruction that defines the
  address used. The result is the C++ result with the set of loads collected so
  far. The recursion through the uses of a projection takes one unit of fuel for
  every projection it looks through.
\<close>

function (sequential) collectLoads ::
    "nat \<Rightarrow> externals \<Rightarrow> func \<Rightarrow> operand \<Rightarrow> inst \<Rightarrow> ident \<Rightarrow> sil_value \<Rightarrow> ident set \<Rightarrow>
     error + bool \<times> ident set"
  and collectLoadsFromProjection ::
    "nat \<Rightarrow> externals \<Rightarrow> func \<Rightarrow> ident \<Rightarrow> sil_value \<Rightarrow> ident set \<Rightarrow>
     error + bool \<times> ident set"
  and projectionUses ::
    "nat \<Rightarrow> externals \<Rightarrow> func \<Rightarrow> operand list \<Rightarrow> ident \<Rightarrow> sil_value \<Rightarrow> ident set \<Rightarrow>
     error + bool \<times> ident set"
where
  "collectLoads fuel ext f userOp user address srcAddr loadInsts =
     (if getParent f (instId user) \<noteq> getParent f address then Inr (False, loadInsts)
      else case instKind user of
        BeginAccessInst a k \<Rightarrow> Inr (k = AccessRead, loadInsts)
      | ApplyInst c args \<Rightarrow> collectApply ext f userOp user args srcAddr loadInsts
      | TryApplyInst c args \<Rightarrow> collectApply ext f userOp user args srcAddr loadInsts
      | OpenExistentialAddrInst a k \<Rightarrow>
          if srcAddr = NullValue then Inr (False, loadInsts)
          else if k \<noteq> Immutable then Inr (False, loadInsts)
          else collectLoadsFromProjection fuel ext f (instId user) srcAddr loadInsts
      | UncheckedTakeEnumDataAddrInst a opt \<Rightarrow>
          if \<not> opt then Inr (False, loadInsts)
          else collectLoadsFromProjection fuel ext f (instId user) srcAddr loadInsts
      | StructElementAddrInst a \<Rightarrow>
          collectLoadsFromProjection fuel ext f (instId user) srcAddr loadInsts
      | TupleElementAddrInst a \<Rightarrow>
          collectLoadsFromProjection fuel ext f (instId user) srcAddr loadInsts
      | LoadInst a q \<Rightarrow>
          if q = LoadTake then Inr (False, loadInsts)
          else Inr (True, insert (instId user) loadInsts)
      | LoadBorrowInst a \<Rightarrow>
          if srcAddr = NullValue then Inr (False, loadInsts)
          else Inr (True, insert (instId user) loadInsts)
      | FixLifetimeInst a \<Rightarrow> Inr (True, insert (instId user) loadInsts)
      | CopyAddrInst s d t i \<Rightarrow>
          if d = InstResult address then Inr (False, loadInsts)
          else Inr (True, insert (instId user) loadInsts)
      | _ \<Rightarrow> Inr (False, loadInsts))"
| "collectLoadsFromProjection fuel ext f projection srcAddr loadInsts =
     (if srcAddr = NullValue then Inr (False, loadInsts)
      else projectionUses fuel ext f (getUses f (InstResult projection)) projection
             srcAddr loadInsts)"
| "projectionUses fuel ext f [] projection srcAddr loadInsts = Inr (True, loadInsts)"
| "projectionUses 0 ext f (projUseOper # rest) projection srcAddr loadInsts = Inl OutOfFuel"
| "projectionUses (Suc fuel) ext f (projUseOper # rest) projection srcAddr loadInsts =
     (case lookupInst f (getUser projUseOper) of
        None \<Rightarrow> Inl NoSuchInstruction
      | Some user \<Rightarrow>
          if isTypeDependentOperand user (operandNumber projUseOper)
          then projectionUses (Suc fuel) ext f rest projection srcAddr loadInsts
          else (case collectLoads fuel ext f projUseOper user projection srcAddr loadInsts of
                  Inl e \<Rightarrow> Inl e
                | Inr (ok, loadInsts') \<Rightarrow>
                    if \<not> ok then Inr (False, loadInsts')
                    else projectionUses (Suc fuel) ext f rest projection srcAddr loadInsts'))"
  by pat_completeness auto
termination
  by (relation "measures
        [\<lambda>x. case x of Inl (fuel, _) \<Rightarrow> 3 * fuel + 2
                    | Inr (Inl (fuel, _)) \<Rightarrow> 3 * fuel + 1
                    | Inr (Inr (fuel, _)) \<Rightarrow> 3 * fuel,
         \<lambda>x. case x of Inr (Inr (fuel, ext, f, us, _)) \<Rightarrow> length us | _ \<Rightarrow> 0]")
     auto

text \<open>
  The loop that \<^verbatim>\<open>tryOptimizeCopyIntoTemp\<close> and \<^verbatim>\<open>tryOptimizeStoreIntoTemp\<close> both
  run over the uses of the temporary: the initializing instruction, destroys,
  deallocations and a \<^verbatim>\<open>load [take]\<close> of the temporary itself are skipped, every
  other use goes to \<open>collectLoads\<close>.
\<close>

definition isLoadTake :: "inst \<Rightarrow> bool" where
  "isLoadTake i = (case instKind i of LoadInst a q \<Rightarrow> q = LoadTake | _ \<Rightarrow> False)"

definition isDestroyAddr :: "inst \<Rightarrow> bool" where
  "isDestroyAddr i = (case instKind i of DestroyAddrInst a \<Rightarrow> True | _ \<Rightarrow> False)"

definition isDeallocStack :: "inst \<Rightarrow> bool" where
  "isDeallocStack i = (case instKind i of DeallocStackInst a \<Rightarrow> True | _ \<Rightarrow> False)"

fun collectTempUses ::
  "nat \<Rightarrow> externals \<Rightarrow> func \<Rightarrow> ident \<Rightarrow> ident \<Rightarrow> sil_value \<Rightarrow> operand list \<Rightarrow> ident set \<Rightarrow>
   error + bool \<times> ident set" where
  "collectTempUses fuel ext f initInst tempObj srcAddr [] loadInsts = Inr (True, loadInsts)"
| "collectTempUses fuel ext f initInst tempObj srcAddr (useOper # rest) loadInsts =
     (case lookupInst f (getUser useOper) of
        None \<Rightarrow> Inl NoSuchInstruction
      | Some user \<Rightarrow>
          if instId user = initInst
          then collectTempUses fuel ext f initInst tempObj srcAddr rest loadInsts
          else if isDestroyAddr user \<or> isDeallocStack user
          then collectTempUses fuel ext f initInst tempObj srcAddr rest loadInsts
          else if isLoadTake user
          then collectTempUses fuel ext f initInst tempObj srcAddr rest loadInsts
          else (case collectLoads fuel ext f useOper user tempObj srcAddr loadInsts of
                  Inl e \<Rightarrow> Inl e
                | Inr (ok, loadInsts') \<Rightarrow>
                    if \<not> ok then Inr (False, loadInsts')
                    else collectTempUses fuel ext f initInst tempObj srcAddr rest loadInsts'))"

section \<open>checkTempObjectDestroy\<close>

text \<open>The users handed to the lifetime analysis: all but the copy and the deallocations.\<close>

fun lifetimeUsers :: "func \<Rightarrow> ident \<Rightarrow> operand list \<Rightarrow> error + ident list" where
  "lifetimeUsers f copyInst [] = Inr []"
| "lifetimeUsers f copyInst (operand # rest) =
     (case lookupInst f (getUser operand) of
        None \<Rightarrow> Inl NoSuchInstruction
      | Some user \<Rightarrow>
          (case lifetimeUsers f copyInst rest of
             Inl e \<Rightarrow> Inl e
           | Inr users \<Rightarrow>
               if instId user = copyInst then Inr users
               else if isDeallocStack user then Inr users
               else Inr (instId user # users)))"

text \<open>
  The loop over the frontier. \<open>assertions\<close> says whether the build has the
  \<^verbatim>\<open>assert\<close> that a \<^verbatim>\<open>copy_addr\<close> before a frontier instruction reads the
  temporary; without it the code goes on to the test of \<^verbatim>\<open>isTakeOfSrc()\<close>. The
  copy is known not to take its source here, so the second assertion of the C++
  loop holds.
\<close>

fun frontierAtDestroys :: "bool \<Rightarrow> func \<Rightarrow> ident \<Rightarrow> ident list \<Rightarrow> error + bool" where
  "frontierAtDestroys assertions f tempObj [] = Inr True"
| "frontierAtDestroys assertions f tempObj (frontierInst # rest) =
     (case prevInst f frontierInst of
        None \<Rightarrow> Inr False
      | Some lastUser \<Rightarrow>
          (case instKind lastUser of
             DestroyAddrInst a \<Rightarrow> frontierAtDestroys assertions f tempObj rest
           | LoadInst a q \<Rightarrow>
               if q = LoadTake then frontierAtDestroys assertions f tempObj rest else Inr False
           | CopyAddrInst s d t i \<Rightarrow>
               if assertions \<and> s \<noteq> InstResult tempObj then Inl AssertionFailed
               else if t then frontierAtDestroys assertions f tempObj rest
               else Inr False
           | _ \<Rightarrow> Inr False))"

text \<open>The copy_addr with the given identity, as it stands in the function.\<close>

definition getCopyAddr :: "func \<Rightarrow> ident \<Rightarrow> (sil_value \<times> sil_value \<times> bool \<times> bool) option" where
  "getCopyAddr f i =
     (case lookupInst f i of
        Some x \<Rightarrow>
          (case instKind x of
             CopyAddrInst src dest isTake isInit \<Rightarrow> Some (src, dest, isTake, isInit)
           | _ \<Rightarrow> None)
      | None \<Rightarrow> None)"

text \<open>
  \<open>checkTempObjectDestroy ext f tempObj copyInst\<close>: the C++ result and the frontier
  the function leaves in \<^verbatim>\<open>tempAddressFrontier\<close>.
\<close>

definition checkTempObjectDestroy ::
  "externals \<Rightarrow> func \<Rightarrow> ident \<Rightarrow> ident \<Rightarrow> error + bool \<times> ident list" where
  "checkTempObjectDestroy ext f tempObj copyInst =
     (case getCopyAddr f copyInst of
        None \<Rightarrow> Inl NoSuchInstruction
      | Some (copyInstSrc, copyInstDest, copyTake, copyInit) \<Rightarrow>
          if copyTake then Inr (True, [])
          else case lifetimeUsers f copyInst (getUses f (InstResult tempObj)) of
            Inl e \<Rightarrow> Inl e
          | Inr users \<Rightarrow>
              (case computeFrontier ext f copyInst users of
                 None \<Rightarrow> Inr (False, [])
               | Some tempAddressFrontier \<Rightarrow>
                   (case frontierAtDestroys (assertionsEnabled ext) f tempObj
                           tempAddressFrontier of
                      Inl e \<Rightarrow> Inl e
                    | Inr ok \<Rightarrow> Inr (ok, tempAddressFrontier))))"

section \<open>tryOptimizeCopyIntoTemp\<close>

text \<open>\<^verbatim>\<open>dyn_cast<AllocStackInst>\<close> of a value: the instruction, when it is an alloc_stack.\<close>

definition asAllocStack :: "func \<Rightarrow> sil_value \<Rightarrow> inst option" where
  "asAllocStack f v =
     (case v of
        InstResult i \<Rightarrow>
          (case lookupInst f i of
             Some x \<Rightarrow> (case instKind x of AllocStackInst d \<Rightarrow> Some x | _ \<Rightarrow> None)
           | None \<Rightarrow> None)
      | _ \<Rightarrow> None)"

text \<open>
  The compensating destroys of a \<^verbatim>\<open>load [take]\<close> \<open>li\<close> that becomes the value
  \<open>newLoad\<close>: one for every frontier instruction whose predecessor is not \<open>li\<close>,
  built by a builder positioned at that predecessor. Modelled from the spec:
  \<^verbatim>\<open>emitDestroyValueOperation\<close> is the compensating release of the value, in
  OSSA a \<^verbatim>\<open>destroy_value\<close>. For a frontier instruction at the head of its block
  the assertion fails; without assertions \<^verbatim>\<open>std::prev\<close> then names no instruction.
\<close>

fun insertCompensatingDestroys ::
  "bool \<Rightarrow> func \<Rightarrow> ident list \<Rightarrow> ident \<Rightarrow> sil_value \<Rightarrow> error + func" where
  "insertCompensatingDestroys assertions f [] li newLoad = Inr f"
| "insertCompensatingDestroys assertions f (inst # rest) li newLoad =
     (case prevInst f inst of
        None \<Rightarrow> Inl (if assertions then AssertionFailed else NoSuchInstruction)
      | Some prevI \<Rightarrow>
          if instId prevI = li then insertCompensatingDestroys assertions f rest li newLoad
          else insertCompensatingDestroys assertions
                 (insertBefore f (instId prevI) (Inst (freshId f) (DestroyValueInst newLoad) []))
                 rest li newLoad)"

text \<open>
  The \<^verbatim>\<open>load [take]\<close> case of the rewrite when the copy does not take its source:
  a duplicating read of the copy's source built at the copy (modelled from the
  spec: \<^verbatim>\<open>emitLoadValueOperation\<close> with the qualifier copy, in OSSA a
  \<^verbatim>\<open>load [copy]\<close>), the destroys, then the uses of \<open>li\<close> go to the new load and
  \<open>li\<close> waits for its deletion.
\<close>

definition replaceLoadTake ::
  "bool \<Rightarrow> func \<Rightarrow> ident \<Rightarrow> sil_value \<Rightarrow> ident list \<Rightarrow> ident \<Rightarrow> ident list \<Rightarrow>
   error + func \<times> ident list" where
  "replaceLoadTake assertions f copyInst copyInstSrc tempAddressFrontier li toDelete =
     (let newLoadInst = freshId f;
          f1 = insertBefore f copyInst (Inst newLoadInst (LoadInst copyInstSrc LoadCopy) []);
          newLoad = InstResult newLoadInst
      in case insertCompensatingDestroys assertions f1 tempAddressFrontier li newLoad of
           Inl e \<Rightarrow> Inl e
         | Inr f2 \<Rightarrow>
             Inr (dropAllReferences (replaceAllUsesWith f2 (InstResult li) newLoad) li,
                  toDelete @ [li]))"

text \<open>
  One turn of the loop \<^verbatim>\<open>while (!tempObj->use_empty())\<close>: the rewrite of the use
  \<open>use\<close>.
\<close>

definition replaceTempUse ::
  "bool \<Rightarrow> func \<Rightarrow> ident \<Rightarrow> ident \<Rightarrow> sil_value \<Rightarrow> ident list \<Rightarrow> operand \<Rightarrow> ident list \<Rightarrow>
   error + func \<times> ident list" where
  "replaceTempUse assertions f copyInst tempObj copySrc tempAddressFrontier use toDelete =
     (case getCopyAddr f copyInst of
        None \<Rightarrow> Inl NoSuchInstruction
      | Some (copyInstSrc, copyInstDest, copyTake, copyInit) \<Rightarrow>
     (case lookupInst f (getUser use) of
        None \<Rightarrow> Inl NoSuchInstruction
      | Some user \<Rightarrow>
          (case instKind user of
             DestroyAddrInst a \<Rightarrow>
               if copyTake then Inr (setOperand f use copySrc, toDelete)
               else Inr (dropAllReferences f (instId user), toDelete @ [instId user])
           | DeallocStackInst a \<Rightarrow>
               Inr (dropAllReferences f (instId user), toDelete @ [instId user])
           | CopyAddrInst s d t i \<Rightarrow>
               if instId user \<noteq> copyInst
               then if assertions \<and> s \<noteq> InstResult tempObj then Inl AssertionFailed
                    else if t \<and> \<not> copyTake
                    then Inr (setOperand (setKind f (instId user) (CopyAddrInst s d False i))
                                use copySrc, toDelete)
                    else Inr (setOperand f use copySrc, toDelete)
               else Inr (setOperand f use copySrc, toDelete)
           | LoadInst a q \<Rightarrow>
               if q \<noteq> LoadTake \<or> copyTake
               then Inr (setOperand f use copyInstSrc, toDelete)
               else replaceLoadTake assertions f copyInst copyInstSrc tempAddressFrontier
                      (instId user) toDelete
           | _ \<Rightarrow> Inr (setOperand f use copySrc, toDelete))))"

text \<open>The loop itself; a turn takes one unit of fuel.\<close>

fun replaceTempUses ::
  "nat \<Rightarrow> bool \<Rightarrow> func \<Rightarrow> ident \<Rightarrow> ident \<Rightarrow> sil_value \<Rightarrow> ident list \<Rightarrow> ident list \<Rightarrow>
   error + func \<times> ident list" where
  "replaceTempUses fuel assertions f copyInst tempObj copySrc tempAddressFrontier toDelete =
     (case getUses f (InstResult tempObj) of
        [] \<Rightarrow> Inr (f, toDelete)
      | use # _ \<Rightarrow>
          (case fuel of
             0 \<Rightarrow> Inl OutOfFuel
           | Suc fuel' \<Rightarrow>
               (case replaceTempUse assertions f copyInst tempObj copySrc
                       tempAddressFrontier use toDelete of
                  Inl e \<Rightarrow> Inl e
                | Inr (f', toDelete') \<Rightarrow>
                    replaceTempUses fuel' assertions f' copyInst tempObj copySrc
                      tempAddressFrontier toDelete')))"

text \<open>\<^verbatim>\<open>while (!toDelete.empty()) toDelete.pop_back_val()->eraseFromParent()\<close>.\<close>

definition eraseAll :: "func \<Rightarrow> ident list \<Rightarrow> func" where
  "eraseAll f toDelete = fold (\<lambda>i g. eraseFromParent g i) (rev toDelete) f"

text \<open>
  \<open>tryOptimizeCopyIntoTemp fuel ext f copyInst\<close>: the function after the call and
  the C++ result.
\<close>

definition tryOptimizeCopyIntoTemp ::
  "nat \<Rightarrow> externals \<Rightarrow> func \<Rightarrow> ident \<Rightarrow> error + func \<times> bool" where
  "tryOptimizeCopyIntoTemp fuel ext f copyInst =
     (case getCopyAddr f copyInst of
        None \<Rightarrow> Inl NoSuchInstruction
      | Some (src, dest, isTake, isInit) \<Rightarrow>
          if \<not> isInit then Inr (f, False)
          else (case asAllocStack f dest of
            None \<Rightarrow> Inr (f, False)
          | Some tempInst \<Rightarrow>
              let tempObj = instId tempInst;
                  copySrc = stripAccessMarkers ext f src
              in if assertionsEnabled ext \<and> InstResult tempObj = copySrc
                 then Inl AssertionFailed
                 else (case collectTempUses fuel ext f copyInst tempObj copySrc
                              (getUses f (InstResult tempObj)) {} of
                   Inl e \<Rightarrow> Inl e
                 | Inr (ok, loadInsts) \<Rightarrow>
                     if \<not> ok then Inr (f, False)
                     else if \<not> checkNoSourceModification ext f copyInst copySrc loadInsts
                     then Inr (f, False)
                     else (case checkTempObjectDestroy ext f tempObj copyInst of
                       Inl e \<Rightarrow> Inl e
                     | Inr (destroyed, tempAddressFrontier) \<Rightarrow>
                         if \<not> destroyed then Inr (f, False)
                         else (case replaceTempUses fuel (assertionsEnabled ext) f copyInst
                                      tempObj copySrc tempAddressFrontier [] of
                           Inl e \<Rightarrow> Inl e
                         | Inr (f', toDelete) \<Rightarrow>
                             Inr (eraseFromParent (eraseAll f' toDelete) tempObj, True))))))"

section \<open>tryOptimizeStoreIntoTemp\<close>

text \<open>The store with the given identity, as it stands in the function.\<close>

definition getStore :: "func \<Rightarrow> ident \<Rightarrow> (sil_value \<times> sil_value \<times> store_qualifier) option" where
  "getStore f i =
     (case lookupInst f i of
        Some x \<Rightarrow> (case instKind x of StoreInst src dest q \<Rightarrow> Some (src, dest, q) | _ \<Rightarrow> None)
      | None \<Rightarrow> None)"

text \<open>
  The body of the rewrite loop for one use whose user is not the store. The
  builders build before the user. Modelled from the spec: the release, the
  duplication and the store of a value (\<^verbatim>\<open>emitDestroyValueOperation\<close>,
  \<^verbatim>\<open>emitCopyValueOperation\<close>, \<^verbatim>\<open>emitStoreValueOperation\<close>), in OSSA a
  \<^verbatim>\<open>destroy_value\<close>, a \<^verbatim>\<open>copy_value\<close> and a \<^verbatim>\<open>store\<close>.
\<close>

definition replaceStoredUse ::
  "bool \<Rightarrow> func \<Rightarrow> sil_value \<Rightarrow> ident \<Rightarrow> inst \<Rightarrow> ident list \<Rightarrow> error + func \<times> ident list" where
  "replaceStoredUse assertions f siSrc tempObj user toDelete =
     (case instKind user of
        DestroyAddrInst a \<Rightarrow>
          Inr (insertBefore f (instId user) (Inst (freshId f) (DestroyValueInst siSrc) []),
               toDelete @ [instId user])
      | DeallocStackInst a \<Rightarrow> Inr (f, toDelete @ [instId user])
      | CopyAddrInst s d t i \<Rightarrow>
          if assertions \<and> s \<noteq> InstResult tempObj then Inl AssertionFailed
          else
            let qualifier = (if i then StoreInit else StoreAssign);
                f1 = (if \<not> t
                      then insertBefore f (instId user) (Inst (freshId f) (CopyValueInst siSrc) [])
                      else f);
                src = (if \<not> t then InstResult (freshId f) else siSrc)
            in Inr (insertBefore f1 (instId user) (Inst (freshId f1) (StoreInst src d qualifier) []),
                    toDelete @ [instId user])
      | LoadInst a q \<Rightarrow>
          let f1 = (if q = LoadCopy
                    then insertBefore f (instId user) (Inst (freshId f) (CopyValueInst siSrc) [])
                    else f);
              srcObject = (if q = LoadCopy then InstResult (freshId f) else siSrc)
          in Inr (replaceAllUsesWith f1 (InstResult (instId user)) srcObject,
                  toDelete @ [instId user])
      | FixLifetimeInst a \<Rightarrow>
          Inr (insertBefore f (instId user) (Inst (freshId f) (FixLifetimeInst siSrc) []),
               toDelete @ [instId user])
      | _ \<Rightarrow> Inl UnreachableExecuted)"

text \<open>The rewrite loop \<^verbatim>\<open>for (auto *use : tempObj->getUses())\<close>.\<close>

fun replaceStoredUses ::
  "bool \<Rightarrow> func \<Rightarrow> ident \<Rightarrow> ident \<Rightarrow> operand list \<Rightarrow> ident list \<Rightarrow>
   error + func \<times> ident list" where
  "replaceStoredUses assertions f si tempObj [] toDelete = Inr (f, toDelete)"
| "replaceStoredUses assertions f si tempObj (use # rest) toDelete =
     (if getUser use = si then replaceStoredUses assertions f si tempObj rest toDelete
      else case getStore f si of
        None \<Rightarrow> Inl NoSuchInstruction
      | Some (siSrc, siDest, siQual) \<Rightarrow>
          (case lookupInst f (getUser use) of
             None \<Rightarrow> Inl NoSuchInstruction
           | Some user \<Rightarrow>
               (case replaceStoredUse assertions f siSrc tempObj user toDelete of
                  Inl e \<Rightarrow> Inl e
                | Inr (f', toDelete') \<Rightarrow>
                    replaceStoredUses assertions f' si tempObj rest toDelete')))"

text \<open>
  \<^verbatim>\<open>while (!toDelete.empty())\<close> of the store rewrite: the last one first, its
  references dropped, then erased.
\<close>

definition dropAndEraseAll :: "func \<Rightarrow> ident list \<Rightarrow> func" where
  "dropAndEraseAll f toDelete =
     fold (\<lambda>i g. eraseFromParent (dropAllReferences g i) i) (rev toDelete) f"

text \<open>
  \<open>tryOptimizeStoreIntoTemp fuel ext f si\<close>: the function after the call, the
  iterator returned (\<open>None\<close> is the end of the block) and the flag returned.
\<close>

definition tryOptimizeStoreIntoTemp ::
  "nat \<Rightarrow> externals \<Rightarrow> func \<Rightarrow> ident \<Rightarrow> error + func \<times> ident option \<times> bool" where
  "tryOptimizeStoreIntoTemp fuel ext f si =
     (case getStore f si of
        None \<Rightarrow> Inl NoSuchInstruction
      | Some (src, dest, qualifier) \<Rightarrow>
          if qualifier = StoreAssign then Inr (f, nextInst f si, False)
          else (case asAllocStack f dest of
            None \<Rightarrow> Inr (f, nextInst f si, False)
          | Some tempInst \<Rightarrow>
              if instKind tempInst = AllocStackInst True then Inr (f, nextInst f si, False)
              else
                let tempObj = instId tempInst
                in (case collectTempUses fuel ext f si tempObj NullValue
                           (getUses f (InstResult tempObj)) {} of
                  Inl e \<Rightarrow> Inl e
                | Inr (ok, loadInsts) \<Rightarrow>
                    if \<not> ok then Inr (f, nextInst f si, False)
                    else (case replaceStoredUses (assertionsEnabled ext) f si tempObj
                                 (getUses f (InstResult tempObj)) [] of
                      Inl e \<Rightarrow> Inl e
                    | Inr (f1, toDelete) \<Rightarrow>
                        let f2 = dropAndEraseAll f1 toDelete;
                            nextIter = nextInst f2 si
                        in Inr (eraseFromParent (eraseFromParent f2 si) tempObj,
                                nextIter, True)))))"

section \<open>run\<close>

text \<open>
  The loop over the instructions of one block. \<open>ii\<close> is the iterator (\<open>None\<close>: the
  end of the block), \<open>budget\<close> the fuel handed to the calls, \<open>fuel\<close> bounds the
  turns of this loop.
\<close>

fun sweepBlock ::
  "nat \<Rightarrow> nat \<Rightarrow> externals \<Rightarrow> func \<Rightarrow> ident option \<Rightarrow> bool \<Rightarrow> ident list \<Rightarrow>
   error + func \<times> bool \<times> ident list" where
  "sweepBlock budget fuel ext f None changed deadCopies = Inr (f, changed, deadCopies)"
| "sweepBlock budget 0 ext f (Some ii) changed deadCopies = Inl OutOfFuel"
| "sweepBlock budget (Suc fuel) ext f (Some ii) changed deadCopies =
     (case lookupInst f ii of
        None \<Rightarrow> Inl NoSuchInstruction
      | Some i \<Rightarrow>
          (case instKind i of
             CopyAddrInst s d t n \<Rightarrow>
               (case tryOptimizeCopyIntoTemp budget ext f ii of
                  Inl e \<Rightarrow> Inl e
                | Inr (f', optimized) \<Rightarrow>
                    (case getCopyAddr f' ii of
                       None \<Rightarrow> Inl NoSuchInstruction
                     | Some (src, dest, isTake, isInit) \<Rightarrow>
                         if stripAccessMarkers ext f' src = dest
                         then sweepBlock budget fuel ext f' (nextInst f' ii) True
                                (deadCopies @ [ii])
                         else sweepBlock budget fuel ext f' (nextInst f' ii)
                                (changed \<or> optimized) deadCopies))
           | StoreInst s d q \<Rightarrow>
               (case tryOptimizeStoreIntoTemp budget ext f ii of
                  Inl e \<Rightarrow> Inl e
                | Inr (f', nextIter, madeSingleChange) \<Rightarrow>
                    sweepBlock budget fuel ext f' nextIter (changed \<or> madeSingleChange)
                      deadCopies)
           | _ \<Rightarrow> sweepBlock budget fuel ext f (nextInst f ii) changed deadCopies))"

text \<open>The loop over the blocks; \<open>b\<close> counts them.\<close>

definition blockBegin :: "func \<Rightarrow> nat \<Rightarrow> ident option" where
  "blockBegin f b = (case f ! b of [] \<Rightarrow> None | x # _ \<Rightarrow> Some (instId x))"

fun sweepBlocks ::
  "nat \<Rightarrow> externals \<Rightarrow> func \<Rightarrow> nat list \<Rightarrow> bool \<Rightarrow> ident list \<Rightarrow>
   error + func \<times> bool \<times> ident list" where
  "sweepBlocks budget ext f [] changed deadCopies = Inr (f, changed, deadCopies)"
| "sweepBlocks budget ext f (b # bs) changed deadCopies =
     (case sweepBlock budget budget ext f (blockBegin f b) changed deadCopies of
        Inl e \<Rightarrow> Inl e
      | Inr (f', changed', deadCopies') \<Rightarrow> sweepBlocks budget ext f' bs changed' deadCopies')"

text \<open>The deletion of the dead copies and the simplification of their sources.\<close>

definition getDefiningInstruction :: "sil_value \<Rightarrow> ident option" where
  "getDefiningInstruction v = (case v of InstResult i \<Rightarrow> Some i | _ \<Rightarrow> None)"

fun eraseDeadCopies :: "externals \<Rightarrow> func \<Rightarrow> bool \<Rightarrow> ident list \<Rightarrow> error + func" where
  "eraseDeadCopies ext f changed [] = Inr f"
| "eraseDeadCopies ext f changed (deadCopy # rest) =
     (if assertionsEnabled ext \<and> \<not> changed then Inl AssertionFailed
      else case getCopyAddr f deadCopy of
        None \<Rightarrow> Inl NoSuchInstruction
      | Some (src, dest, isTake, isInit) \<Rightarrow>
          let f1 = eraseFromParent f deadCopy
          in (case getDefiningInstruction src of
                None \<Rightarrow> eraseDeadCopies ext f1 changed rest
              | Some srcInst \<Rightarrow>
                  let result = simplifyInstruction ext f1 srcInst
                  in if result = NullValue then eraseDeadCopies ext f1 changed rest
                     else eraseDeadCopies ext
                            (replaceAllSimplifiedUsesAndErase ext f1 srcInst result)
                            changed rest))"

text \<open>
  \<open>run budget ext f\<close>: the function after the pass and whether the pass calls
  \<^verbatim>\<open>invalidateAnalysis\<close>. \<^verbatim>\<open>sortUnique\<close> orders the dead copies by their
  addresses and drops the repeated ones.
\<close>

definition run :: "nat \<Rightarrow> externals \<Rightarrow> func \<Rightarrow> error + func \<times> bool" where
  "run budget ext f =
     (case sweepBlocks budget ext f [0..<length f] False [] of
        Inl e \<Rightarrow> Inl e
      | Inr (f1, changed, deadCopies) \<Rightarrow>
          (case eraseDeadCopies ext f1 changed (remdups (sort deadCopies)) of
             Inl e \<Rightarrow> Inl e
           | Inr f2 \<Rightarrow> Inr (f2, changed)))"

section \<open>Concrete analyses and functions\<close>

text \<open>
  Analyses to run the pass with on concrete functions: an instruction may write
  to an address when it stores or copies into it, takes out of it or destroys
  it; two different values do not alias; the frontier of a lifetime that ends in
  the block of its definition is the instruction after the last user;
  \<^verbatim>\<open>stripAccessMarkers\<close> walks from a \<^verbatim>\<open>begin_access\<close> to its operand; nothing is
  simplified.
\<close>

fun stripMarkers :: "nat \<Rightarrow> func \<Rightarrow> sil_value \<Rightarrow> sil_value" where
  "stripMarkers 0 f v = v"
| "stripMarkers (Suc n) f v =
     (case v of
        InstResult i \<Rightarrow>
          (case lookupInst f i of
             Some x \<Rightarrow> (case instKind x of BeginAccessInst a k \<Rightarrow> stripMarkers n f a | _ \<Rightarrow> v)
           | None \<Rightarrow> v)
      | _ \<Rightarrow> v)"

definition writesTo :: "inst \<Rightarrow> sil_value \<Rightarrow> bool" where
  "writesTo i v =
     (case instKind i of
        CopyAddrInst s d t n \<Rightarrow> d = v \<or> (t \<and> s = v)
      | StoreInst s d q \<Rightarrow> d = v
      | DestroyAddrInst a \<Rightarrow> a = v
      | _ \<Rightarrow> False)"

definition lastUserFrontier :: "func \<Rightarrow> ident \<Rightarrow> ident list \<Rightarrow> ident list option" where
  "lastUserFrontier f d users =
     (case filter (\<lambda>i. instId i \<in> set users) (rev (instsAfter f d)) of
        [] \<Rightarrow> map_option (\<lambda>n. [n]) (nextInst f d)
      | lastUser # _ \<Rightarrow> map_option (\<lambda>n. [n]) (nextInst f (instId lastUser)))"

definition exampleExternals :: externals where
  "exampleExternals =
     \<lparr> mayWriteToMemory = (\<lambda>f. writesTo),
       isNoAlias = (\<lambda>f a b. a \<noteq> b),
       computeFrontier = lastUserFrontier,
       stripAccessMarkers = (\<lambda>f. stripMarkers (length (concat f)) f),
       simplifyInstruction = (\<lambda>f i. NullValue),
       replaceAllSimplifiedUsesAndErase = (\<lambda>f i v. f),
       assertionsEnabled = True \<rparr>"


text \<open>
  A temporary initialized by a copy from the first argument, loaded once and
  destroyed:
  \<^verbatim>\<open>
    %0 = alloc_stack
    copy_addr %arg0 to [initialization] %0      // 1
    %2 = load [copy] %0
    destroy_addr %0                             // 3
    dealloc_stack %0                            // 4
    return %2                                   // 5
  \<close>
\<close>

definition copiedAndLoaded :: func where
  "copiedAndLoaded =
     [[Inst 0 (AllocStackInst False) [],
       Inst 1 (CopyAddrInst (FunctionArgument 0) (InstResult 0) False True) [],
       Inst 2 (LoadInst (InstResult 0) LoadCopy) [],
       Inst 3 (DestroyAddrInst (InstResult 0)) [],
       Inst 4 (DeallocStackInst (InstResult 0)) [],
       Inst 5 (OtherInst [InstResult 2]) []]]"


definition loadedInOtherBlock :: func where
  "loadedInOtherBlock =
     [[Inst 0 (AllocStackInst False) [],
       Inst 1 (CopyAddrInst (FunctionArgument 0) (InstResult 0) False True) [],
       Inst 2 (OtherInst []) []],
      [Inst 3 (LoadInst (InstResult 0) LoadCopy) [],
       Inst 4 (DestroyAddrInst (InstResult 0)) [],
       Inst 5 (DeallocStackInst (InstResult 0)) [],
       Inst 6 (OtherInst [InstResult 3]) []]]"




text \<open>
  Stores the store rewrite does not look at: an assign store into a temporary, a
  store into an address that no alloc_stack defines, and a store into a temporary
  of dynamic lifetime.
\<close>

definition assignedTemp :: func where
  "assignedTemp =
     [[Inst 0 (AllocStackInst False) [],
       Inst 1 (StoreInst (FunctionArgument 0) (InstResult 0) StoreAssign) [],
       Inst 2 (LoadInst (InstResult 0) LoadTake) [],
       Inst 3 (DeallocStackInst (InstResult 0)) [],
       Inst 4 (OtherInst [InstResult 2]) []]]"

definition storedToArgument :: func where
  "storedToArgument =
     [[Inst 1 (StoreInst (FunctionArgument 0) (FunctionArgument 1) StoreInit) [],
       Inst 2 (LoadInst (FunctionArgument 1) LoadTake) [],
       Inst 4 (OtherInst [InstResult 2]) []]]"

definition dynamicTemp :: func where
  "dynamicTemp =
     [[Inst 0 (AllocStackInst True) [],
       Inst 1 (StoreInst (FunctionArgument 0) (InstResult 0) StoreInit) [],
       Inst 2 (LoadInst (InstResult 0) LoadTake) [],
       Inst 3 (DeallocStackInst (InstResult 0)) [],
       Inst 4 (OtherInst [InstResult 2]) []]]"

text \<open>
  The temporary handed to a call as a guaranteed argument, with a second argument
  passed inout; first in the block of the temporary, then in a second block:
  \<^verbatim>\<open>
    %0 = alloc_stack
    copy_addr %arg0 to [initialization] %0      // 1
    %2 = function_ref
    apply %2(%0, %arg1)                         // 3: in_guaranteed, inout
    destroy_addr %0                             // 4
    dealloc_stack %0                            // 5
  \<close>
\<close>

definition calledWithTemp :: func where
  "calledWithTemp =
     [[Inst 0 (AllocStackInst False) [],
       Inst 1 (CopyAddrInst (FunctionArgument 0) (InstResult 0) False True) [],
       Inst 2 (OtherInst []) [],
       Inst 3 (ApplyInst (InstResult 2)
                 [(InstResult 0, Indirect_In_Guaranteed), (FunctionArgument 1, Indirect_Inout)]) [],
       Inst 4 (DestroyAddrInst (InstResult 0)) [],
       Inst 5 (DeallocStackInst (InstResult 0)) [],
       Inst 6 (OtherInst []) []]]"

text \<open>
  \<^verbatim>\<open>
    %0 = alloc_stack
    copy_addr %arg0 to [initialization] %0      // 1
    br bb1                                      // 2
  bb1:
    %3 = function_ref
    apply %3(%0)                                // 4: in_guaranteed
    destroy_addr %0                             // 5
    dealloc_stack %0                            // 6
  \<close>
\<close>

definition calledInOtherBlock :: func where
  "calledInOtherBlock =
     [[Inst 0 (AllocStackInst False) [],
       Inst 1 (CopyAddrInst (FunctionArgument 0) (InstResult 0) False True) [],
       Inst 2 (OtherInst []) []],
      [Inst 3 (OtherInst []) [],
       Inst 4 (ApplyInst (InstResult 3) [(InstResult 0, Indirect_In_Guaranteed)]) [],
       Inst 5 (DestroyAddrInst (InstResult 0)) [],
       Inst 6 (DeallocStackInst (InstResult 0)) [],
       Inst 7 (OtherInst []) []]]"

text \<open>
  A projection of the temporary loaded in its block, and the temporary itself
  taken in a second block:
  \<^verbatim>\<open>
    %2 = struct_element_addr %0
    %3 = load [copy] %2
    br bb1                                      // 4
  bb1:
    %5 = load [take] %0
    dealloc_stack %0                            // 6
  \<close>
\<close>

definition takenInOtherBlock :: func where
  "takenInOtherBlock =
     [[Inst 0 (AllocStackInst False) [],
       Inst 1 (CopyAddrInst (FunctionArgument 0) (InstResult 0) False True) [],
       Inst 2 (StructElementAddrInst (InstResult 0)) [],
       Inst 3 (LoadInst (InstResult 2) LoadCopy) [],
       Inst 4 (OtherInst []) []],
      [Inst 5 (LoadInst (InstResult 0) LoadTake) [],
       Inst 6 (DeallocStackInst (InstResult 0)) [],
       Inst 7 (OtherInst [InstResult 5]) []]]"

text \<open>
  A read access to the temporary, with a call inside the access scope that takes
  both the access and the temporary:
  \<^verbatim>\<open>
    %0 = alloc_stack
    copy_addr %arg0 to [initialization] %0      // 1
    %2 = begin_access [read] %0
    %3 = function_ref
    apply %3(%2, %0)                            // 4: in_guaranteed, in_guaranteed
    end_access %2                               // 5
    destroy_addr %0                             // 6
    dealloc_stack %0                            // 7
  \<close>
\<close>

definition readAccessScope :: func where
  "readAccessScope =
     [[Inst 0 (AllocStackInst False) [],
       Inst 1 (CopyAddrInst (FunctionArgument 0) (InstResult 0) False True) [],
       Inst 2 (BeginAccessInst (InstResult 0) AccessRead) [],
       Inst 3 (OtherInst []) [],
       Inst 4 (ApplyInst (InstResult 3)
                 [(InstResult 2, Indirect_In_Guaranteed), (InstResult 0, Indirect_In_Guaranteed)]) [],
       Inst 5 (EndAccessInst (InstResult 2)) [],
       Inst 6 (DestroyAddrInst (InstResult 0)) [],
       Inst 7 (DeallocStackInst (InstResult 0)) [],
       Inst 8 (OtherInst []) []]]"

text \<open>
  A read access in a second block:
  \<^verbatim>\<open>
    copy_addr %arg0 to [initialization] %0      // 1
    br bb1                                      // 2
  bb1:
    %3 = begin_access [read] %0
    %4 = load [copy] %3
    end_access %3                               // 5
    destroy_addr %0                             // 6
    dealloc_stack %0                            // 7
  \<close>
\<close>

definition accessedInOtherBlock :: func where
  "accessedInOtherBlock =
     [[Inst 0 (AllocStackInst False) [],
       Inst 1 (CopyAddrInst (FunctionArgument 0) (InstResult 0) False True) [],
       Inst 2 (OtherInst []) []],
      [Inst 3 (BeginAccessInst (InstResult 0) AccessRead) [],
       Inst 4 (LoadInst (InstResult 3) LoadCopy) [],
       Inst 5 (EndAccessInst (InstResult 3)) [],
       Inst 6 (DestroyAddrInst (InstResult 0)) [],
       Inst 7 (DeallocStackInst (InstResult 0)) [],
       Inst 8 (OtherInst [InstResult 4]) []]]"

text \<open>
  A temporary initialized by a store and read through a read access:
  \<^verbatim>\<open>
    %0 = alloc_stack
    store %arg0 to [init] %0                    // 1
    %2 = begin_access [read] %0
    %3 = load [copy] %2
    end_access %2                               // 4
    destroy_addr %0                             // 5
    dealloc_stack %0                            // 6
    return %3                                   // 7
  \<close>
\<close>

definition storedAndAccessed :: func where
  "storedAndAccessed =
     [[Inst 0 (AllocStackInst False) [],
       Inst 1 (StoreInst (FunctionArgument 0) (InstResult 0) StoreInit) [],
       Inst 2 (BeginAccessInst (InstResult 0) AccessRead) [],
       Inst 3 (LoadInst (InstResult 2) LoadCopy) [],
       Inst 4 (EndAccessInst (InstResult 2)) [],
       Inst 5 (DestroyAddrInst (InstResult 0)) [],
       Inst 6 (DeallocStackInst (InstResult 0)) [],
       Inst 7 (OtherInst [InstResult 3]) []]]"

text \<open>
  A temporary that one path takes and the other destroys, with the frontier of
  its lifetime (the two deallocations):
  \<^verbatim>\<open>
    %0 = alloc_stack
    copy_addr %arg0 to [initialization] %0      // 1
    cond_br bb1, bb2                            // 2
  bb1:
    %3 = load [take] %0
    dealloc_stack %0                            // 4
    br bb3(%3)                                  // 5
  bb2:
    destroy_addr %0                             // 6
    dealloc_stack %0                            // 7
    br bb3                                      // 8
  \<close>
  \<open>takenOnOnePathRedirected\<close> is this function when the rewrite loop has redirected
  the destination of the copy, \<open>takenOnOnePathReleased\<close> when it has then rewritten
  the \<^verbatim>\<open>load [take]\<close>. In \<open>takenCopy\<close> the copy takes its source.
\<close>

definition takenOnOnePath :: func where
  "takenOnOnePath =
     [[Inst 0 (AllocStackInst False) [],
       Inst 1 (CopyAddrInst (FunctionArgument 0) (InstResult 0) False True) [],
       Inst 2 (OtherInst []) []],
      [Inst 3 (LoadInst (InstResult 0) LoadTake) [],
       Inst 4 (DeallocStackInst (InstResult 0)) [],
       Inst 5 (OtherInst [InstResult 3]) []],
      [Inst 6 (DestroyAddrInst (InstResult 0)) [],
       Inst 7 (DeallocStackInst (InstResult 0)) [],
       Inst 8 (OtherInst []) []]]"

definition takenOnOnePathRedirected :: func where
  "takenOnOnePathRedirected =
     [[Inst 0 (AllocStackInst False) [],
       Inst 1 (CopyAddrInst (FunctionArgument 0) (FunctionArgument 0) False True) [],
       Inst 2 (OtherInst []) []],
      [Inst 3 (LoadInst (InstResult 0) LoadTake) [],
       Inst 4 (DeallocStackInst (InstResult 0)) [],
       Inst 5 (OtherInst [InstResult 3]) []],
      [Inst 6 (DestroyAddrInst (InstResult 0)) [],
       Inst 7 (DeallocStackInst (InstResult 0)) [],
       Inst 8 (OtherInst []) []]]"

definition takenOnOnePathReleased :: func where
  "takenOnOnePathReleased =
     [[Inst 0 (AllocStackInst False) [],
       Inst 9 (LoadInst (FunctionArgument 0) LoadCopy) [],
       Inst 1 (CopyAddrInst (FunctionArgument 0) (FunctionArgument 0) False True) [],
       Inst 2 (OtherInst []) []],
      [Inst 3 (LoadInst NullValue LoadTake) [],
       Inst 4 (DeallocStackInst (InstResult 0)) [],
       Inst 5 (OtherInst [InstResult 9]) []],
      [Inst 10 (DestroyValueInst (InstResult 9)) [],
       Inst 6 (DestroyAddrInst (InstResult 0)) [],
       Inst 7 (DeallocStackInst (InstResult 0)) [],
       Inst 8 (OtherInst []) []]]"

definition twoPathExternals :: externals where
  "twoPathExternals = exampleExternals \<lparr> computeFrontier := (\<lambda>f d users. Some [4, 7]) \<rparr>"

definition takenCopy :: func where
  "takenCopy =
     [[Inst 0 (AllocStackInst False) [],
       Inst 1 (CopyAddrInst (FunctionArgument 0) (InstResult 0) True True) [],
       Inst 2 (LoadInst (InstResult 0) LoadTake) [],
       Inst 3 (DeallocStackInst (InstResult 0)) [],
       Inst 4 (OtherInst [InstResult 2]) []]]"

text \<open>
  \<open>takenOnOnePathOptimized\<close> is what the pass makes of \<open>takenOnOnePath\<close>. In
  \<open>takenOnTwoPaths\<close> the temporary is taken by a load on two paths and destroyed in
  place on a third; \<open>takenOnTwoPathsOptimized\<close> is what the pass makes of it.
  \<^verbatim>\<open>
  bb0:
    %0 = alloc_stack
    copy_addr %arg0 to [initialization] %0      // 1
    switch bb1, bb2, bb3                        // 2
  bb1:
    %3 = load [take] %0
    dealloc_stack %0                            // 4
    br bb4(%3)                                  // 5
  bb2:
    %6 = load [take] %0
    dealloc_stack %0                            // 7
    br bb4(%6)                                  // 8
  bb3:
    destroy_addr %0                             // 9
    other                                       // 10
    dealloc_stack %0                            // 11
    br bb4                                      // 12
  \<close>
\<close>

definition takenOnOnePathOptimized :: func where
  "takenOnOnePathOptimized =
     [[Inst 9 (LoadInst (FunctionArgument 0) LoadCopy) [],
       Inst 1 (CopyAddrInst (FunctionArgument 0) (FunctionArgument 0) False True) [],
       Inst 2 (OtherInst []) []],
      [Inst 5 (OtherInst [InstResult 9]) []],
      [Inst 10 (DestroyValueInst (InstResult 9)) [],
       Inst 8 (OtherInst []) []]]"

definition takenOnTwoPaths :: func where
  "takenOnTwoPaths =
     [[Inst 0 (AllocStackInst False) [],
       Inst 1 (CopyAddrInst (FunctionArgument 0) (InstResult 0) False True) [],
       Inst 2 (OtherInst []) []],
      [Inst 3 (LoadInst (InstResult 0) LoadTake) [],
       Inst 4 (DeallocStackInst (InstResult 0)) [],
       Inst 5 (OtherInst [InstResult 3]) []],
      [Inst 6 (LoadInst (InstResult 0) LoadTake) [],
       Inst 7 (DeallocStackInst (InstResult 0)) [],
       Inst 8 (OtherInst [InstResult 6]) []],
      [Inst 9 (DestroyAddrInst (InstResult 0)) [],
       Inst 10 (OtherInst []) [],
       Inst 11 (DeallocStackInst (InstResult 0)) [],
       Inst 12 (OtherInst []) []]]"

definition threePathExternals :: externals where
  "threePathExternals = exampleExternals \<lparr> computeFrontier := (\<lambda>f d users. Some [4, 7, 10]) \<rparr>"

definition takenOnTwoPathsOptimized :: func where
  "takenOnTwoPathsOptimized =
     [[Inst 13 (LoadInst (FunctionArgument 0) LoadCopy) [],
       Inst 16 (LoadInst (FunctionArgument 0) LoadCopy) [],
       Inst 1 (CopyAddrInst (FunctionArgument 0) (FunctionArgument 0) False True) [],
       Inst 2 (OtherInst []) []],
      [Inst 17 (DestroyValueInst (InstResult 16)) [],
       Inst 5 (OtherInst [InstResult 13]) []],
      [Inst 14 (DestroyValueInst (InstResult 13)) [],
       Inst 8 (OtherInst [InstResult 16]) []],
      [Inst 15 (DestroyValueInst (InstResult 13)) [],
       Inst 18 (DestroyValueInst (InstResult 16)) [],
       Inst 10 (OtherInst []) [],
       Inst 12 (OtherInst []) []]]"








section \<open>The words of the specification\<close>

text \<open>The number of members of the read-set among the given instructions.\<close>

definition numLoadsSeen :: "ident set \<Rightarrow> inst list \<Rightarrow> nat" where
  "numLoadsSeen useInsts insts = length (filter (\<lambda>i. instId i \<in> useInsts) insts)"




text \<open>Instruction identities are unique in a function.\<close>

definition uniqueIds :: "func \<Rightarrow> bool" where
  "uniqueIds f = distinct (map instId (concat f))"




text \<open>
  What the rewrite of a \<^verbatim>\<open>load [take]\<close> does to an instruction of the function,
  \<^verbatim>\<open>li->replaceAllUsesWith(newValue)\<close> followed by \<^verbatim>\<open>li->dropAllReferences()\<close>: every
  operand that is the result of the load becomes the new value, and the load itself
  loses its operands.
\<close>

definition routeUses :: "ident \<Rightarrow> sil_value \<Rightarrow> inst \<Rightarrow> inst" where
  "routeUses li newValue x =
     (let x' = updateOperands (map (\<lambda>v. if v = InstResult li then newValue else v)) x
      in if instId x = li then updateOperands (map (\<lambda>_. NullValue)) x' else x')"

text \<open>
  What the rewrite loop of \<^verbatim>\<open>tryOptimizeCopyIntoTemp\<close> keeps from one turn to the
  next: the identifiers are unique, the copy is still a \<^verbatim>\<open>copy_addr\<close> with its take
  flag and a source other than the temporary, the temporary is still an
  \<^verbatim>\<open>alloc_stack\<close>, every frontier instruction has an instruction before it, and every
  other \<^verbatim>\<open>copy_addr\<close> that uses the temporary reads it and nothing else of it.
\<close>

definition copyReadsTemp :: "ident \<Rightarrow> ident \<Rightarrow> inst \<Rightarrow> bool" where
  "copyReadsTemp copyInst tempObj x =
     (case instKind x of
        CopyAddrInst s d t i \<Rightarrow>
          instId x = copyInst \<or> InstResult tempObj \<notin> set (getAllOperands x) \<or>
          (s = InstResult tempObj \<and> d \<noteq> InstResult tempObj \<and>
           InstResult tempObj \<notin> set (typeDependentOperands x))
      | _ \<Rightarrow> True)"

definition rewriteReady :: "func \<Rightarrow> ident \<Rightarrow> ident \<Rightarrow> bool \<Rightarrow> ident list \<Rightarrow> bool" where
  "rewriteReady g copyInst tempObj copyTake frontier =
     (uniqueIds g \<and>
      (\<exists>src dest init. getCopyAddr g copyInst = Some (src, dest, copyTake, init) \<and>
                       src \<noteq> InstResult tempObj) \<and>
      (\<exists>tempInst. asAllocStack g (InstResult tempObj) = Some tempInst) \<and>
      (\<forall>F \<in> set frontier. prevInst g F \<noteq> None) \<and>
      (\<forall>x \<in> set (concat g). copyReadsTemp copyInst tempObj x))"

section \<open>The default case of the store rewrite\<close>

text \<open>
  C1. In \<open>storedAndAccessed\<close> every use of the temporary is accepted by the
  classification with no source address (the \<^verbatim>\<open>begin_access [read]\<close> is accepted
  by \<open>collectLoads\<close>), and the rewrite loop of \<^verbatim>\<open>tryOptimizeStoreIntoTemp\<close> then
  meets the \<^verbatim>\<open>begin_access\<close>, for which its switch has no case: the
  \<^verbatim>\<open>llvm_unreachable\<close> of the default case is executed.
\<close>

theorem store_rewrite_reaches_unreachable:
  "collectTempUses 20 exampleExternals storedAndAccessed 1 0 NullValue
     (getUses storedAndAccessed (InstResult 0)) {} = Inr (True, {}) \<and>
   tryOptimizeStoreIntoTemp 20 exampleExternals storedAndAccessed 1 = Inl UnreachableExecuted"
  by code_simp

section \<open>The source-mutation check scans forward and counts the loads\<close>

lemma sourceModificationLoop_iff:
  "sourceModificationLoop ext f src U n insts =
     (\<exists>k<length insts. n + numLoadsSeen U (take (Suc k) insts) = card U \<and>
        (\<forall>j<k. n + numLoadsSeen U (take (Suc j) insts) \<noteq> card U \<and>
               \<not> mayWriteToMemory ext f (insts ! j) src))"
proof (induction insts arbitrary: n)
  case Nil
  then show ?case by simp
next
  case (Cons x xs)
  let ?n' = "if instId x \<in> U then n + 1 else n"
  let ?reached = "\<lambda>m ys k. m + numLoadsSeen U (take (Suc k) ys) = card U"
  let ?quiet = "\<lambda>m ys k. \<forall>j<k. m + numLoadsSeen U (take (Suc j) ys) \<noteq> card U \<and>
                                \<not> mayWriteToMemory ext f (ys ! j) src"
  have n': "?n' = n + numLoadsSeen U [x]" by (simp add: numLoadsSeen_def)
  have shift: "\<And>m. n + numLoadsSeen U (take (Suc (Suc m)) (x # xs)) =
                    ?n' + numLoadsSeen U (take (Suc m) xs)"
    by (simp add: numLoadsSeen_def)
  show ?case
  proof (cases "?n' = card U")
    case True
    then have "sourceModificationLoop ext f src U n (x # xs)" by (simp add: Let_def)
    moreover have "\<exists>k<length (x # xs). ?reached n (x # xs) k \<and> ?quiet n (x # xs) k"
      using True n' by (intro exI[of _ 0]) simp
    ultimately show ?thesis by blast
  next
    case False
    show ?thesis
    proof (cases "mayWriteToMemory ext f x src")
      case True
      have "\<not> sourceModificationLoop ext f src U n (x # xs)"
        using False True by (simp add: Let_def)
      moreover have "\<not> (\<exists>k<length (x # xs). ?reached n (x # xs) k \<and> ?quiet n (x # xs) k)"
      proof
        assume "\<exists>k<length (x # xs). ?reached n (x # xs) k \<and> ?quiet n (x # xs) k"
        then obtain k where k: "?reached n (x # xs) k" "?quiet n (x # xs) k" by blast
        show False
        proof (cases k)
          case 0
          with k(1) False n' show False by simp
        next
          case (Suc k')
          with k(2) have "\<not> mayWriteToMemory ext f ((x # xs) ! 0) src" by blast
          with True show False by simp
        qed
      qed
      ultimately show ?thesis by blast
    next
      case nw: False
      have step: "sourceModificationLoop ext f src U n (x # xs) =
                  sourceModificationLoop ext f src U ?n' xs"
        using False nw by (simp add: Let_def)
      have "(\<exists>k<length (x # xs). ?reached n (x # xs) k \<and> ?quiet n (x # xs) k) =
            (\<exists>k<length xs. ?reached ?n' xs k \<and> ?quiet ?n' xs k)" (is "?L = ?R")
      proof
        assume ?L
        then obtain k where k: "k < length (x # xs)" "?reached n (x # xs) k"
          "?quiet n (x # xs) k" by blast
        from k(2) False n' obtain k' where k': "k = Suc k'" by (cases k) auto
        have "k' < length xs" using k(1) k' by simp
        moreover have "?reached ?n' xs k'" using k(2) k' shift by simp
        moreover have "?quiet ?n' xs k'"
        proof (intro allI impI)
          fix j assume "j < k'"
          then have "Suc j < k" using k' by simp
          with k(3) have "n + numLoadsSeen U (take (Suc (Suc j)) (x # xs)) \<noteq> card U \<and>
               \<not> mayWriteToMemory ext f ((x # xs) ! Suc j) src" by blast
          then show "?n' + numLoadsSeen U (take (Suc j) xs) \<noteq> card U \<and>
               \<not> mayWriteToMemory ext f (xs ! j) src" using shift by simp
        qed
        ultimately show ?R by blast
      next
        assume ?R
        then obtain k where k: "k < length xs" "?reached ?n' xs k" "?quiet ?n' xs k"
          by blast
        have "Suc k < length (x # xs)" using k(1) by simp
        moreover have "?reached n (x # xs) (Suc k)" using k(2) shift by simp
        moreover have "?quiet n (x # xs) (Suc k)"
        proof (intro allI impI)
          fix j assume j: "j < Suc k"
          show "n + numLoadsSeen U (take (Suc j) (x # xs)) \<noteq> card U \<and>
               \<not> mayWriteToMemory ext f ((x # xs) ! j) src"
          proof (cases j)
            case 0
            then show ?thesis using False nw n' by simp
          next
            case (Suc j')
            then have "j' < k" using j by simp
            with k(3) have "?n' + numLoadsSeen U (take (Suc j') xs) \<noteq> card U \<and>
               \<not> mayWriteToMemory ext f (xs ! j') src" by blast
            then show ?thesis using Suc shift by simp
          qed
        qed
        ultimately show ?L by blast
      qed
      with step Cons.IH[of ?n'] show ?thesis by simp
    qed
  qed
qed

text \<open>
  C2. \<^verbatim>\<open>checkNoSourceModification\<close> looks at the instructions that follow the
  copy in its block, in order, and after each one compares the number of read-set
  members seen so far with the size of the read-set. It succeeds exactly when
  some instruction \<open>k\<close> brings that number to the size of the read-set and no
  instruction before \<open>k\<close> may write to the source: nothing is asked of the
  instructions after \<open>k\<close>, nor of \<open>k\<close> itself. In every other case it fails: at the
  first instruction that may write to the source while the number is still
  different from the size, or at the end of the block when the number never got
  there.
\<close>

theorem checkNoSourceModification_scan:
  "checkNoSourceModification ext f copyInst copySrc useInsts =
     (\<exists>k<length (instsAfter f copyInst).
        numLoadsSeen useInsts (take (Suc k) (instsAfter f copyInst)) = card useInsts \<and>
        (\<forall>j<k. numLoadsSeen useInsts (take (Suc j) (instsAfter f copyInst)) \<noteq> card useInsts \<and>
               \<not> mayWriteToMemory ext f (instsAfter f copyInst ! j) copySrc))"
  unfolding checkNoSourceModification_def
  using sourceModificationLoop_iff [of ext f copySrc useInsts 0 "instsAfter f copyInst"]
  by simp

theorem checkNoSourceModification_scan_witness:
  "checkNoSourceModification exampleExternals copiedAndLoaded 1 (FunctionArgument 0) {2} \<and>
   numLoadsSeen {2} (take (Suc 0) (instsAfter copiedAndLoaded 1)) = card {2::nat} \<and>
   0 < length (instsAfter copiedAndLoaded 1)"
proof -
  have len: "0 < length (instsAfter copiedAndLoaded 1)" by code_simp
  have reached: "numLoadsSeen {2} (take (Suc 0) (instsAfter copiedAndLoaded 1)) = card {2::nat}"
    by code_simp
  have "\<exists>k<length (instsAfter copiedAndLoaded 1).
        numLoadsSeen {2} (take (Suc k) (instsAfter copiedAndLoaded 1)) = card {2::nat} \<and>
        (\<forall>j<k. numLoadsSeen {2} (take (Suc j) (instsAfter copiedAndLoaded 1)) \<noteq> card {2::nat} \<and>
               \<not> mayWriteToMemory exampleExternals copiedAndLoaded
                    (instsAfter copiedAndLoaded 1 ! j) (FunctionArgument 0))"
    using len reached by (intro exI[of _ 0]) simp
  then have "checkNoSourceModification exampleExternals copiedAndLoaded 1 (FunctionArgument 0) {2}"
    using checkNoSourceModification_scan
      [of exampleExternals copiedAndLoaded 1 "FunctionArgument 0" "{2}"] by blast
  with len reached show ?thesis by blast
qed

section \<open>The destroy pattern\<close>






section \<open>The rewrite of a consuming load\<close>

subsection \<open>Where an inserted instruction stands\<close>

lemma find_distinct_key:
  "distinct (map g xs) \<Longrightarrow> x \<in> set xs \<Longrightarrow> find (\<lambda>y. g y = g x) xs = Some x"
  by (induction xs) (auto simp: image_iff)

lemma lookupInst_unique:
  "uniqueIds f \<Longrightarrow> x \<in> set (concat f) \<Longrightarrow> lookupInst f (instId x) = Some x"
  unfolding uniqueIds_def lookupInst_def by (rule find_distinct_key)

lemma asAllocStack_dest:
  "asAllocStack f dest = Some tempInst \<Longrightarrow> dest = InstResult (instId tempInst)"
  unfolding asAllocStack_def lookupInst_def
  by (auto split: sil_value.splits option.splits inst_kind.splits dest: find_Some_iff[THEN iffD1])

lemma fold_max_ge: "x \<in> set xs \<Longrightarrow> x \<le> fold max xs (a::nat)"
proof (induction xs arbitrary: a)
  case Nil
  then show ?case by simp
next
  case (Cons y ys)
  have mono: "\<And>b c. b \<le> c \<Longrightarrow> fold max ys b \<le> fold max ys (c::nat)"
    by (induction ys) (auto simp: max.coboundedI1 max.coboundedI2)
  have base: "\<And>b. b \<le> fold max ys (b::nat)"
    by (induction ys) (auto intro: order_trans [OF max.cobounded2])
  show ?case
  proof (cases "x = y")
    case True
    have "y \<le> max y a" by simp
    also have "\<dots> \<le> fold max ys (max y a)" by (rule base)
    finally show ?thesis using True by simp
  next
    case False
    with Cons.prems have "x \<in> set ys" by simp
    from Cons.IH [OF this] show ?thesis by simp
  qed
qed

lemma freshId_fresh: "x \<in> set (concat f) \<Longrightarrow> instId x \<noteq> freshId f"
proof
  assume x: "x \<in> set (concat f)" and e: "instId x = freshId f"
  from x have "instId x \<in> set (map instId (concat f))" by simp
  from fold_max_ge [OF this, of 0] e show False by (simp add: freshId_def)
qed

lemma list_ex_insertInBlock:
  "i \<noteq> instId new \<Longrightarrow>
   list_ex (\<lambda>x. instId x = i) (insertInBlock p new blk) = list_ex (\<lambda>x. instId x = i) blk"
  by (induction blk) auto

lemma getBlock_insertBefore:
  "i \<noteq> instId new \<Longrightarrow> getBlock (insertBefore f p new) i = insertInBlock p new (getBlock f i)"
  unfolding getBlock_def insertBefore_def
  by (induction f) (auto simp: list_ex_insertInBlock)

lemma find_SomeD: "find P xs = Some x \<Longrightarrow> P x \<and> x \<in> set xs"
  by (induction xs) (auto split: if_splits)

lemma getBlock_member:
  "getBlock f i \<noteq> [] \<Longrightarrow> getBlock f i \<in> set f \<and> i \<in> instId ` set (getBlock f i)"
proof -
  assume ne: "getBlock f i \<noteq> []"
  then obtain blk where blk: "find (list_ex (\<lambda>x. instId x = i)) f = Some blk"
    unfolding getBlock_def by (auto split: option.splits)
  then have g: "getBlock f i = blk" unfolding getBlock_def by simp
  from find_SomeD [OF blk] have "list_ex (\<lambda>x. instId x = i) blk" "blk \<in> set f" by auto
  then show ?thesis using g by (auto simp: list_ex_iff)
qed

lemma getBlock_same:
  "uniqueIds f \<Longrightarrow> getBlock f i \<noteq> [] \<Longrightarrow> p \<in> instId ` set (getBlock f i) \<Longrightarrow>
   getBlock f p = getBlock f i"
  unfolding getBlock_def uniqueIds_def
proof (induction f)
  case Nil
  then show ?case by simp
next
  case (Cons b bs)
  show ?case
  proof (cases "list_ex (\<lambda>x. instId x = i) b")
    case True
    with Cons.prems show ?thesis by (auto simp: list_ex_iff)
  next
    case False
    with Cons.prems have rest: "(case find (list_ex (\<lambda>x. instId x = i)) bs of None \<Rightarrow> [] | Some b \<Rightarrow> b) \<noteq> []"
      and pin: "p \<in> instId ` set (case find (list_ex (\<lambda>x. instId x = i)) bs of None \<Rightarrow> [] | Some b \<Rightarrow> b)"
      by auto
    from rest obtain blk where blk: "find (list_ex (\<lambda>x. instId x = i)) bs = Some blk"
      by (auto split: option.splits)
    then have "blk \<in> set bs" using find_SomeD by fastforce
    with pin blk have "p \<in> instId ` set (concat bs)" by auto
    with Cons.prems(1) have "\<not> list_ex (\<lambda>x. instId x = p) b" by (auto simp: list_ex_iff)
    moreover from Cons.prems(1) have "distinct (map instId (concat bs))" by simp
    ultimately show ?thesis using Cons.IH rest pin False by simp
  qed
qed

lemma prevInst_split:
  assumes "prevInst f i = Some x"
  shows "\<exists>pre y post. getBlock f i = pre @ x # y # post \<and> instId y = i \<and>
                       i \<notin> instId ` set (pre @ [x])"
proof -
  define blk where "blk = getBlock f i"
  define tw where "tw = takeWhile (\<lambda>x. instId x \<noteq> i) blk"
  define dw where "dw = dropWhile (\<lambda>x. instId x \<noteq> i) blk"
  from assms obtain before where "rev tw = x # before"
    unfolding prevInst_def instsBefore_def tw_def blk_def by (auto split: list.splits)
  then have tw: "tw = rev before @ [x]" by (simp add: rev_eq_Cons_iff)
  then have "blk \<noteq> []" unfolding tw_def by auto
  with getBlock_member [of f i] have "i \<in> instId ` set blk" unfolding blk_def by blast
  then have "dw \<noteq> []" unfolding dw_def by auto
  then obtain y post where dw: "dw = y # post" by (cases dw) auto
  have "\<not> instId (hd dw) \<noteq> i" unfolding dw_def
    using \<open>dw \<noteq> []\<close> [unfolded dw_def] by (rule hd_dropWhile)
  with dw have y: "instId y = i" by simp
  have "blk = tw @ dw" unfolding tw_def dw_def by simp
  with tw dw have split: "blk = rev before @ x # y # post" by simp
  have "\<forall>z \<in> set tw. instId z \<noteq> i" unfolding tw_def by (auto dest: set_takeWhileD)
  with tw have "i \<notin> instId ` set (rev before @ [x])" by auto
  with split y show ?thesis unfolding blk_def by blast
qed

lemma insertInBlock_absent:
  "p \<notin> instId ` set blk \<Longrightarrow> insertInBlock p new blk = blk"
  by (induction blk) auto

lemma insertInBlock_ids:
  "set (map instId (insertInBlock p new blk)) \<subseteq> insert (instId new) (set (map instId blk))"
  by (induction blk) auto

lemma insertInBlock_distinct:
  "distinct (map instId blk) \<Longrightarrow> instId new \<notin> instId ` set blk \<Longrightarrow>
   distinct (map instId (insertInBlock p new blk))"
  by (induction blk) (use insertInBlock_ids in \<open>fastforce+\<close>)

lemma disjoint_from_extended:
  "A \<inter> B = {} \<Longrightarrow> n \<notin> A \<Longrightarrow> C \<subseteq> insert n B \<Longrightarrow> A \<inter> C = {}"
  by blast

lemma union_extended:
  "A \<subseteq> insert n A' \<Longrightarrow> B \<subseteq> insert n B' \<Longrightarrow> A \<union> B \<subseteq> insert n (A' \<union> B')"
  by blast

lemma insertInBlock_concat_ids:
  "instId ` set (concat (map (insertInBlock p new) bs)) \<subseteq>
     insert (instId new) (instId ` set (concat bs))"
proof (induction bs)
  case Nil
  then show ?case by simp
next
  case (Cons b bs)
  have "instId ` set (insertInBlock p new b) \<subseteq> insert (instId new) (instId ` set b)"
    using insertInBlock_ids [of p new b] by simp
  from union_extended [OF this Cons.IH] show ?case by (simp add: image_Un)
qed

lemma insertBefore_uniqueIds:
  "uniqueIds f \<Longrightarrow> instId new \<notin> instId ` set (concat f) \<Longrightarrow>
   uniqueIds (insertBefore f p new)"
  unfolding uniqueIds_def insertBefore_def
proof (induction f)
  case Nil
  then show ?case by simp
next
  case (Cons b bs)
  let ?ins = "insertInBlock p new"
  from Cons.prems have db: "distinct (map instId b)" and dbs: "distinct (map instId (concat bs))"
    and disj: "instId ` set b \<inter> instId ` set (concat bs) = {}"
    and nb: "instId new \<notin> instId ` set b" and nbs: "instId new \<notin> instId ` set (concat bs)"
    by auto
  from Cons.IH [OF dbs nbs]
  have ih: "distinct (map instId (concat (map ?ins bs)))" .
  have subb: "instId ` set (?ins b) \<subseteq> insert (instId new) (instId ` set b)"
    using insertInBlock_ids [of p new b] by simp
  have goal: "distinct (map instId (?ins b)) \<Longrightarrow>
              distinct (map instId (concat (map ?ins bs))) \<Longrightarrow>
              instId ` set (?ins b) \<inter> instId ` set (concat (map ?ins bs)) = {} \<Longrightarrow> ?case"
    by simp
  show ?case
  proof (cases "p \<in> instId ` set b")
    case True
    with disj have "\<forall>blk \<in> set bs. p \<notin> instId ` set blk" by auto
    then have same: "map ?ins bs = bs"
      by (induction bs) (auto simp: insertInBlock_absent)
    have d1: "distinct (map instId (?ins b))"
      using db nb by (rule insertInBlock_distinct)
    have d3: "instId ` set (?ins b) \<inter> instId ` set (concat bs) = {}"
      using disjoint_from_extended [of "instId ` set (concat bs)" "instId ` set b"
                                       "instId new" "instId ` set (?ins b)"] subb disj nbs
      by (simp add: Int_commute)
    show ?thesis using d1 dbs d3 same by (intro goal) simp_all
  next
    case False
    then have b: "?ins b = b" by (rule insertInBlock_absent)
    have "instId ` set (concat (map ?ins bs)) \<subseteq> insert (instId new) (instId ` set (concat bs))"
      by (rule insertInBlock_concat_ids)
    then have d3: "instId ` set b \<inter> instId ` set (concat (map ?ins bs)) = {}"
      by (rule disjoint_from_extended [OF disj nb])
    show ?thesis using b db ih d3 by (intro goal) simp_all
  qed
qed

lemma block_distinct:
  "uniqueIds f \<Longrightarrow> blk \<in> set f \<Longrightarrow> distinct (map instId blk)"
  unfolding uniqueIds_def by (induction f) auto

lemma lookupInst_member: "lookupInst f i = Some x \<Longrightarrow> x \<in> set (concat f) \<and> instId x = i"
  unfolding lookupInst_def using find_SomeD by fastforce

lemma getBlock_found:
  "x \<in> set (concat f) \<Longrightarrow> getBlock f (instId x) \<noteq> []"
  unfolding getBlock_def
  by (induction f) (auto simp: list_ex_iff)

lemma kindOperands_withKindOperands:
  "length vs = length (kindOperands k) \<Longrightarrow> kindOperands (withKindOperands k vs) = vs"
proof (cases k)
  case (ApplyInst c args)
  assume l: "length vs = length (kindOperands k)"
  with ApplyInst obtain v rest where vs: "vs = v # rest" "length rest = length args"
    by (cases vs) auto
  then show ?thesis using ApplyInst by (simp add: map_fst_zip)
next
  case (TryApplyInst c args)
  assume l: "length vs = length (kindOperands k)"
  with TryApplyInst obtain v rest where vs: "vs = v # rest" "length rest = length args"
    by (cases vs) auto
  then show ?thesis using TryApplyInst by (simp add: map_fst_zip)
qed (auto simp: length_Suc_conv)

lemma getAllOperands_updateOperands:
  assumes "\<And>xs. length (g xs) = length xs"
  shows "getAllOperands (updateOperands g i) = g (getAllOperands i)"
proof -
  define vs where "vs = g (getAllOperands i)"
  define n where "n = length (kindOperands (instKind i))"
  have "length vs = n + length (typeDependentOperands i)"
    unfolding vs_def n_def by (simp add: assms getAllOperands_def)
  then have "length (take n vs) = length (kindOperands (instKind i))" by (simp add: n_def)
  from kindOperands_withKindOperands [OF this]
  have "kindOperands (withKindOperands (instKind i) (take n vs)) @ drop n vs = vs" by simp
  then show ?thesis
    unfolding updateOperands_def getAllOperands_def [of "Inst _ _ _"] Let_def
    by (simp add: vs_def n_def)
qed

lemma instId_updateOperands [simp]: "instId (updateOperands g i) = instId i"
  by (simp add: updateOperands_def Let_def)

lemma usesIn_none: "v \<notin> set (getAllOperands i) \<Longrightarrow> usesIn v i = []"
  unfolding usesIn_def by (auto simp: filter_empty_conv)

lemma getUses_none:
  "\<forall>i \<in> set (concat f). v \<notin> set (getAllOperands i) \<Longrightarrow> getUses f v = []"
  unfolding getUses_def by (auto simp: usesIn_none)

lemma getUses_none_iff:
  "getUses f v = [] \<longleftrightarrow> (\<forall>i \<in> set (concat f). v \<notin> set (getAllOperands i))"
proof
  assume e: "getUses f v = []"
  show "\<forall>i \<in> set (concat f). v \<notin> set (getAllOperands i)"
  proof (intro ballI notI)
    fix i assume i: "i \<in> set (concat f)" and v: "v \<in> set (getAllOperands i)"
    from v obtain n where "n < length (getAllOperands i)" "getAllOperands i ! n = v"
      by (auto simp: in_set_conv_nth)
    then have "usesIn v i \<noteq> []" unfolding usesIn_def by (auto simp: filter_empty_conv)
    with i e show False unfolding getUses_def by auto
  qed
qed (rule getUses_none)

lemma ids_eraseFromParent:
  "instId ` set (concat (eraseFromParent f u)) = instId ` set (concat f) - {u}"
  unfolding eraseFromParent_def by auto

lemma ids_eraseAll:
  "instId ` set (concat (fold (\<lambda>i g. eraseFromParent g i) xs f)) = instId ` set (concat f) - set xs"
proof (induction xs arbitrary: f)
  case Nil
  then show ?case by simp
next
  case (Cons x xs)
  define A where "A = instId ` set (concat f)"
  have "instId ` set (concat (fold (\<lambda>i g. eraseFromParent g i) (x # xs) f)) =
        instId ` set (concat (eraseFromParent f x)) - set xs"
    using Cons.IH [of "eraseFromParent f x"] by simp
  also have "\<dots> = (A - {x}) - set xs"
    unfolding A_def by (simp only: ids_eraseFromParent)
  also have "\<dots> = A - set (x # xs)" by auto
  finally show ?case unfolding A_def .
qed

lemma lookupInst_None_iff: "lookupInst f i = None \<longleftrightarrow> i \<notin> instId ` set (concat f)"
  unfolding lookupInst_def by (auto simp: find_None_iff)

lemma lookupInst_eraseAll:
  "i \<in> set toDelete \<Longrightarrow> lookupInst (eraseFromParent (eraseAll f toDelete) tempObj) i = None"
  unfolding lookupInst_None_iff ids_eraseFromParent eraseAll_def ids_eraseAll by simp

lemma lookupInst_mapInsts:
  "(\<And>x. instId (g x) = instId x) \<Longrightarrow> lookupInst (mapInsts g f) i = map_option g (lookupInst f i)"
proof -
  assume g: "\<And>x. instId (g x) = instId x"
  have "\<And>xs. find (\<lambda>x. instId x = i) (map g xs) = map_option g (find (\<lambda>x. instId x = i) xs)"
    subgoal for xs by (induction xs) (auto simp: g)
    done
  then show ?thesis unfolding lookupInst_def mapInsts_def by (simp add: map_concat [symmetric])
qed

lemma lookupInst_setOperand_load:
  assumes "lookupInst f (getUser use) = Some li" "instKind li = LoadInst a q"
    "operandNumber use = 0"
  shows "lookupInst (setOperand f use v) (getUser use) =
           Some (Inst (getUser use) (LoadInst v q) (typeDependentOperands li))"
proof -
  from lookupInst_member [OF assms(1)] have id: "instId li = getUser use" by simp
  have "lookupInst (setOperand f use v) (getUser use) =
          map_option (\<lambda>i. if instId i = getUser use
                          then updateOperands (\<lambda>vs. vs[operandNumber use := v]) i else i)
            (lookupInst f (getUser use))"
    unfolding setOperand_def by (rule lookupInst_mapInsts) simp
  with assms id show ?thesis
    by (simp add: updateOperands_def getAllOperands_def Let_def)
qed

lemma last_of_rev:
  "(case rev xs of [] \<Rightarrow> None | x # _ \<Rightarrow> Some x) = (if xs = [] then None else Some (last xs))"
  by (cases xs rule: rev_cases) auto

lemma prevInst_last:
  "prevInst f i =
     (if takeWhile (\<lambda>x. instId x \<noteq> i) (getBlock f i) = [] then None
      else Some (last (takeWhile (\<lambda>x. instId x \<noteq> i) (getBlock f i))))"
  unfolding prevInst_def instsBefore_def by (rule last_of_rev)

lemma takeWhile_insertInBlock:
  "i \<noteq> instId new \<Longrightarrow>
   (if takeWhile (\<lambda>x. instId x \<noteq> i) (insertInBlock p new blk) = [] then None
    else Some (last (takeWhile (\<lambda>x. instId x \<noteq> i) (insertInBlock p new blk)))) =
   (if i = p \<and> p \<in> instId ` set blk then Some new
    else if takeWhile (\<lambda>x. instId x \<noteq> i) blk = [] then None
    else Some (last (takeWhile (\<lambda>x. instId x \<noteq> i) blk)))"
proof (induction blk)
  case Nil
  then show ?case by simp
next
  case (Cons y ys)
  show ?case
  proof (cases "instId y = p")
    case True
    with Cons.prems show ?thesis by auto
  next
    case False
    show ?thesis
    proof (cases "instId y = i")
      case True
      with False show ?thesis by auto
    next
      case ni: False
      with False Cons.IH [OF Cons.prems] show ?thesis by (auto split: if_splits)
    qed
  qed
qed

lemma getBlock_ids:
  "i \<in> instId ` set (getBlock f i) \<longleftrightarrow> i \<in> instId ` set (concat f)"
proof
  assume "i \<in> instId ` set (getBlock f i)"
  then have "getBlock f i \<noteq> []" by auto
  with getBlock_member [of f i] have "getBlock f i \<in> set f" by blast
  with \<open>i \<in> instId ` set (getBlock f i)\<close> show "i \<in> instId ` set (concat f)" by auto
next
  assume "i \<in> instId ` set (concat f)"
  then obtain x where "x \<in> set (concat f)" "instId x = i" by auto
  with getBlock_found [of x f] have "getBlock f i \<noteq> []" by auto
  with getBlock_member [of f i] show "i \<in> instId ` set (getBlock f i)" by blast
qed

lemma prevInst_insertBefore:
  "i \<noteq> instId new \<Longrightarrow>
   prevInst (insertBefore f p new) i =
     (if i = p \<and> p \<in> instId ` set (concat f) then Some new else prevInst f i)"
proof -
  assume ni: "i \<noteq> instId new"
  let ?tw = "\<lambda>blk. takeWhile (\<lambda>x. instId x \<noteq> i) blk"
  have "prevInst (insertBefore f p new) i =
          (if ?tw (insertInBlock p new (getBlock f i)) = [] then None
           else Some (last (?tw (insertInBlock p new (getBlock f i)))))"
    unfolding prevInst_last by (simp add: getBlock_insertBefore [OF ni])
  also have "\<dots> = (if i = p \<and> p \<in> instId ` set (getBlock f i) then Some new
                     else prevInst f i)"
    unfolding prevInst_last [of f i] by (rule takeWhile_insertInBlock [OF ni])
  also have "\<dots> = (if i = p \<and> p \<in> instId ` set (concat f) then Some new else prevInst f i)"
    using getBlock_ids [of i f] by auto
  finally show ?thesis .
qed

lemma list_ex_map_ids:
  "(\<And>x. instId (h x) = instId x) \<Longrightarrow>
   list_ex (\<lambda>x. instId x = i) (map h blk) = list_ex (\<lambda>x. instId x = i) blk"
  by (induction blk) auto

lemma getBlock_mapInsts:
  "(\<And>x. instId (h x) = instId x) \<Longrightarrow> getBlock (mapInsts h f) i = map h (getBlock f i)"
  unfolding getBlock_def mapInsts_def
  by (induction f) (auto simp: list_ex_map_ids)

lemma takeWhile_map_ids:
  "(\<And>x. instId (h x) = instId x) \<Longrightarrow>
   takeWhile (\<lambda>x. instId x \<noteq> i) (map h blk) = map h (takeWhile (\<lambda>x. instId x \<noteq> i) blk)"
  by (induction blk) auto

lemma prevInst_mapInsts:
  "(\<And>x. instId (h x) = instId x) \<Longrightarrow> prevInst (mapInsts h f) i = map_option h (prevInst f i)"
  unfolding prevInst_last
  by (simp add: getBlock_mapInsts takeWhile_map_ids last_map)

lemma find_append_first:
  "find P (xs @ ys) = (case find P xs of None \<Rightarrow> find P ys | Some x \<Rightarrow> Some x)"
  by (induction xs) auto

lemma find_insertInBlock:
  "i \<noteq> instId new \<Longrightarrow>
   find (\<lambda>x. instId x = i) (insertInBlock p new blk @ rest) =
   find (\<lambda>x. instId x = i) (blk @ rest)"
  by (induction blk) auto

lemma lookupInst_insertBefore:
  "i \<noteq> instId new \<Longrightarrow> lookupInst (insertBefore f p new) i = lookupInst f i"
  unfolding lookupInst_def insertBefore_def
proof (induction f)
  case Nil
  then show ?case by simp
next
  case (Cons b bs)
  have "find (\<lambda>x. instId x = i) (insertInBlock p new b @ concat (map (insertInBlock p new) bs)) =
        find (\<lambda>x. instId x = i) (b @ concat (map (insertInBlock p new) bs))"
    using Cons.prems by (rule find_insertInBlock)
  also have "\<dots> = find (\<lambda>x. instId x = i) (b @ concat bs)"
    using Cons.IH [OF Cons.prems] by (simp add: find_append_first split: option.splits)
  finally show ?case by simp
qed

lemma prevInst_in_func:
  "prevInst f i = Some p \<Longrightarrow> p \<in> set (concat f) \<and> i \<in> instId ` set (concat f)"
proof -
  assume a: "prevInst f i = Some p"
  from prevInst_split [OF a] obtain pre y post where
    blk: "getBlock f i = pre @ p # y # post" and y: "instId y = i" by blast
  then have "getBlock f i \<noteq> []" by simp
  with getBlock_member [of f i] have "getBlock f i \<in> set f" by blast
  with blk y show ?thesis by force
qed

lemma same_predecessor:
  assumes ids: "uniqueIds g" and a: "prevInst g F = Some p" and b: "prevInst g F' = Some p'"
    and e: "instId p = instId p'"
  shows "F = F'"
proof -
  from prevInst_split [OF a] obtain pre y post where
    blk: "getBlock g F = pre @ p # y # post" and y: "instId y = F" by blast
  from prevInst_split [OF b] obtain pre' y' post' where
    blk': "getBlock g F' = pre' @ p' # y' # post'" and y': "instId y' = F'" by blast
  from blk have ne: "getBlock g F \<noteq> []" by simp
  from blk' have ne': "getBlock g F' \<noteq> []" by simp
  have "getBlock g (instId p) = getBlock g F"
    using ids ne blk by (intro getBlock_same) auto
  moreover have "getBlock g (instId p') = getBlock g F'"
    using ids ne' blk' by (intro getBlock_same) auto
  ultimately have same: "pre @ p # y # post = pre' @ p' # y' # post'"
    using e blk blk' by simp
  from ne getBlock_member [of g F] have "getBlock g F \<in> set g" by blast
  with ids have d: "distinct (map instId (pre @ p # y # post))"
    using blk block_distinct by fastforce
  have "map instId pre @ instId p # map instId (y # post) =
        map instId pre' @ instId p # map instId (y' # post')"
    using same e by (metis list.simps(9) map_append)
  moreover have "instId p \<notin> set (map instId pre)" "instId p \<notin> set (map instId (y # post))"
    using d by auto
  moreover have "instId p \<notin> set (map instId pre')" "instId p \<notin> set (map instId (y' # post'))"
    using d same e by (metis distinct.simps(2) distinct_append list.simps(9) map_append
        disjoint_iff list.set_intros(1))+
  ultimately have "map instId (y # post) = map instId (y' # post')"
    by (metis append_Cons_eq_iff)
  with y y' show ?thesis by simp
qed

lemma set_insertInBlock:
  "set blk \<subseteq> set (insertInBlock p new blk) \<and> set (insertInBlock p new blk) \<subseteq> insert new (set blk)"
  by (induction blk) auto

lemma set_insertBefore:
  "set (concat f) \<subseteq> set (concat (insertBefore f p new)) \<and>
   set (concat (insertBefore f p new)) \<subseteq> insert new (set (concat f))"
  unfolding insertBefore_def using set_insertInBlock [of _ p new] by fastforce

lemma freshId_notin: "freshId f \<notin> instId ` set (concat f)"
  using freshId_fresh by force

lemma insertCompensatingDestroys_frontier:
  "uniqueIds g \<Longrightarrow> distinct fr \<Longrightarrow> (\<forall>F \<in> set fr. prevInst g F \<noteq> None) \<Longrightarrow>
   (\<forall>F \<in> set fr. \<forall>F' \<in> set fr. \<forall>p. prevInst g F = Some p \<longrightarrow> instId p \<noteq> F') \<Longrightarrow>
   \<exists>g2. insertCompensatingDestroys a g fr li v = Inr g2 \<and> uniqueIds g2 \<and>
        set (concat g) \<subseteq> set (concat g2) \<and>
        (\<forall>x \<in> set (concat g2). x \<in> set (concat g) \<or> (\<exists>d. x = Inst d (DestroyValueInst v) [])) \<and>
        (\<forall>F \<in> set fr. \<forall>p. prevInst g F = Some p \<and> instId p \<noteq> li \<longrightarrow>
           (\<exists>d. d \<notin> instId ` set (concat g) \<and>
                prevInst g2 (instId p) = Some (Inst d (DestroyValueInst v) []))) \<and>
        (\<forall>i \<in> instId ` set (concat g).
           (\<forall>F \<in> set fr. \<forall>p. prevInst g F = Some p \<longrightarrow> instId p = li \<or> instId p \<noteq> i) \<longrightarrow>
           prevInst g2 i = prevInst g i)"
proof (induction fr arbitrary: g)
  case Nil
  then show ?case by auto
next
  case (Cons F rest)
  note ids = Cons.prems(1)
  from Cons.prems(2) have dist: "distinct rest" and Fnew: "F \<notin> set rest" by auto
  from Cons.prems(3) obtain p where p: "prevInst g F = Some p" by auto
  from Cons.prems(3) have preds: "\<forall>F' \<in> set rest. prevInst g F' \<noteq> None" by simp
  from Cons.prems(4) have apart: "\<forall>F1 \<in> set rest. \<forall>F2 \<in> set rest. \<forall>q.
        prevInst g F1 = Some q \<longrightarrow> instId q \<noteq> F2" by simp
  show ?case
  proof (cases "instId p = li")
    case True
    from Cons.IH [OF ids dist preds apart] obtain g2 where
      g2: "insertCompensatingDestroys a g rest li v = Inr g2" "uniqueIds g2"
        "set (concat g) \<subseteq> set (concat g2)"
        "\<forall>x \<in> set (concat g2). x \<in> set (concat g) \<or> (\<exists>d. x = Inst d (DestroyValueInst v) [])"
        "\<forall>F \<in> set rest. \<forall>p. prevInst g F = Some p \<and> instId p \<noteq> li \<longrightarrow>
           (\<exists>d. d \<notin> instId ` set (concat g) \<and>
                prevInst g2 (instId p) = Some (Inst d (DestroyValueInst v) []))"
        "\<forall>i \<in> instId ` set (concat g).
           (\<forall>F \<in> set rest. \<forall>p. prevInst g F = Some p \<longrightarrow> instId p = li \<or> instId p \<noteq> i) \<longrightarrow>
           prevInst g2 i = prevInst g i"
      by blast
    have r: "insertCompensatingDestroys a g (F # rest) li v = Inr g2"
      using p True g2(1) by simp
    have ca: "\<forall>F' \<in> set (F # rest). \<forall>q. prevInst g F' = Some q \<and> instId q \<noteq> li \<longrightarrow>
           (\<exists>d. d \<notin> instId ` set (concat g) \<and>
                prevInst g2 (instId q) = Some (Inst d (DestroyValueInst v) []))"
      using g2(5) p True by auto
    have cb: "\<forall>i \<in> instId ` set (concat g).
           (\<forall>F' \<in> set (F # rest). \<forall>q. prevInst g F' = Some q \<longrightarrow>
               instId q = li \<or> instId q \<noteq> i) \<longrightarrow>
           prevInst g2 i = prevInst g i"
      using g2(6) by simp
    from r g2(2,3,4) ca cb show ?thesis by blast
  next
    case False
    define D where "D = Inst (freshId g) (DestroyValueInst v) []"
    define g' where "g' = insertBefore g (instId p) D"
    have Did: "instId D = freshId g" by (simp add: D_def)
    have fresh: "instId D \<notin> instId ` set (concat g)" using freshId_notin Did by simp
    have ids': "uniqueIds g'" unfolding g'_def using ids fresh by (rule insertBefore_uniqueIds)
    from prevInst_in_func [OF p] have pin: "instId p \<in> instId ` set (concat g)" by auto
    have prev': "\<And>i. i \<in> instId ` set (concat g) \<Longrightarrow>
                  prevInst g' i = (if i = instId p then Some D else prevInst g i)"
    proof -
      fix i assume "i \<in> instId ` set (concat g)"
      with fresh have "i \<noteq> instId D" by blast
      from prevInst_insertBefore [OF this, of g "instId p"] pin
      show "prevInst g' i = (if i = instId p then Some D else prevInst g i)"
        by (simp add: g'_def)
    qed
    have restIn: "\<And>F'. F' \<in> set rest \<Longrightarrow> F' \<in> instId ` set (concat g)"
    proof -
      fix F' assume "F' \<in> set rest"
      with preds obtain q where "prevInst g F' = Some q" by auto
      from prevInst_in_func [OF this] show "F' \<in> instId ` set (concat g)" by simp
    qed
    have restPrev: "\<And>F'. F' \<in> set rest \<Longrightarrow> prevInst g' F' = prevInst g F'"
    proof -
      fix F' assume F': "F' \<in> set rest"
      from Cons.prems(4) p F' have "instId p \<noteq> F'" by auto
      with prev' [OF restIn [OF F']] show "prevInst g' F' = prevInst g F'" by simp
    qed
    have preds': "\<forall>F' \<in> set rest. prevInst g' F' \<noteq> None" using preds restPrev by simp
    have apart': "\<forall>F1 \<in> set rest. \<forall>F2 \<in> set rest. \<forall>q.
        prevInst g' F1 = Some q \<longrightarrow> instId q \<noteq> F2" using apart restPrev by simp
    from Cons.IH [OF ids' dist preds' apart'] obtain g2 where
      g2: "insertCompensatingDestroys a g' rest li v = Inr g2" "uniqueIds g2"
        "set (concat g') \<subseteq> set (concat g2)"
        "\<forall>x \<in> set (concat g2). x \<in> set (concat g') \<or> (\<exists>d. x = Inst d (DestroyValueInst v) [])"
        "\<forall>F \<in> set rest. \<forall>p. prevInst g' F = Some p \<and> instId p \<noteq> li \<longrightarrow>
           (\<exists>d. d \<notin> instId ` set (concat g') \<and>
                prevInst g2 (instId p) = Some (Inst d (DestroyValueInst v) []))"
        "\<forall>i \<in> instId ` set (concat g').
           (\<forall>F \<in> set rest. \<forall>p. prevInst g' F = Some p \<longrightarrow> instId p = li \<or> instId p \<noteq> i) \<longrightarrow>
           prevInst g2 i = prevInst g' i"
      by blast
    have r: "insertCompensatingDestroys a g (F # rest) li v = Inr g2"
      using p False g2(1) by (simp add: g'_def D_def)
    from set_insertBefore [of g "instId p" D]
    have sub: "set (concat g) \<subseteq> set (concat g')" "set (concat g') \<subseteq> insert D (set (concat g))"
      by (simp_all add: g'_def)
    have c3: "set (concat g) \<subseteq> set (concat g2)" using sub(1) g2(3) by blast
    have c4: "\<forall>x \<in> set (concat g2). x \<in> set (concat g) \<or> (\<exists>d. x = Inst d (DestroyValueInst v) [])"
    proof
      fix x assume "x \<in> set (concat g2)"
      with g2(4) have "x \<in> set (concat g') \<or> (\<exists>d. x = Inst d (DestroyValueInst v) [])" by blast
      with sub(2) show "x \<in> set (concat g) \<or> (\<exists>d. x = Inst d (DestroyValueInst v) [])"
        by (auto simp: D_def)
    qed
    have idsub: "instId ` set (concat g) \<subseteq> instId ` set (concat g')" using sub(1) by blast
    have notOther: "\<And>F' q. F' \<in> set rest \<Longrightarrow> prevInst g' F' = Some q \<Longrightarrow> instId q \<noteq> instId p"
    proof
      fix F' q assume F': "F' \<in> set rest" and q: "prevInst g' F' = Some q"
        and e: "instId q = instId p"
      from q restPrev [OF F'] have "prevInst g F' = Some q" by simp
      from same_predecessor [OF ids this p e] F' Fnew show False by simp
    qed
    have here: "prevInst g2 (instId p) = Some D"
    proof -
      from pin idsub have "instId p \<in> instId ` set (concat g')" by blast
      moreover have "\<forall>F' \<in> set rest. \<forall>q. prevInst g' F' = Some q \<longrightarrow>
                       instId q = li \<or> instId q \<noteq> instId p"
        using notOther by blast
      ultimately have "prevInst g2 (instId p) = prevInst g' (instId p)" using g2(6) by blast
      with prev' [OF pin] show ?thesis by simp
    qed
    have ca: "\<forall>F' \<in> set (F # rest). \<forall>q. prevInst g F' = Some q \<and> instId q \<noteq> li \<longrightarrow>
           (\<exists>d. d \<notin> instId ` set (concat g) \<and>
                prevInst g2 (instId q) = Some (Inst d (DestroyValueInst v) []))"
    proof (intro ballI allI impI)
      fix F' q assume F': "F' \<in> set (F # rest)"
        and q: "prevInst g F' = Some q \<and> instId q \<noteq> li"
      show "\<exists>d. d \<notin> instId ` set (concat g) \<and>
                prevInst g2 (instId q) = Some (Inst d (DestroyValueInst v) [])"
      proof (cases "F' = F")
        case True
        with q p have "q = p" by simp
        with here fresh Did show ?thesis unfolding D_def by auto
      next
        case False
        with F' have Fr: "F' \<in> set rest" by simp
        with q restPrev have "prevInst g' F' = Some q \<and> instId q \<noteq> li" by simp
        with g2(5) Fr obtain d where "d \<notin> instId ` set (concat g')"
          "prevInst g2 (instId q) = Some (Inst d (DestroyValueInst v) [])" by blast
        with idsub show ?thesis by blast
      qed
    qed
    have cb: "\<forall>i \<in> instId ` set (concat g).
           (\<forall>F' \<in> set (F # rest). \<forall>q. prevInst g F' = Some q \<longrightarrow>
               instId q = li \<or> instId q \<noteq> i) \<longrightarrow>
           prevInst g2 i = prevInst g i"
    proof (intro ballI impI)
      fix i assume i: "i \<in> instId ` set (concat g)"
        and c: "\<forall>F' \<in> set (F # rest). \<forall>q. prevInst g F' = Some q \<longrightarrow>
                  instId q = li \<or> instId q \<noteq> i"
      from c p False have ne: "instId p \<noteq> i" by auto
      from i idsub have i': "i \<in> instId ` set (concat g')" by blast
      have "\<forall>F' \<in> set rest. \<forall>q. prevInst g' F' = Some q \<longrightarrow> instId q = li \<or> instId q \<noteq> i"
        using c restPrev by simp
      with g2(6) i' have "prevInst g2 i = prevInst g' i" by blast
      with prev' [OF i] ne show "prevInst g2 i = prevInst g i" by simp
    qed
    from r g2(2) c3 c4 ca cb show ?thesis by blast
  qed
qed

subsection \<open>One turn of the loop on a consuming load\<close>

lemma instId_routeUses [simp]: "instId (routeUses li v x) = instId x"
  by (simp add: routeUses_def Let_def)

lemma mapInsts_mapInsts: "mapInsts h (mapInsts k f) = mapInsts (\<lambda>x. h (k x)) f"
  by (simp add: mapInsts_def comp_def)

lemma drop_replace_routeUses:
  "dropAllReferences (replaceAllUsesWith f (InstResult li) v) li = mapInsts (routeUses li v) f"
proof -
  have "(\<lambda>x. if instId (updateOperands (map (\<lambda>u. if u = InstResult li then v else u)) x) = li
              then updateOperands (map (\<lambda>_. NullValue))
                     (updateOperands (map (\<lambda>u. if u = InstResult li then v else u)) x)
              else updateOperands (map (\<lambda>u. if u = InstResult li then v else u)) x) =
        routeUses li v"
    by (rule ext) (simp add: routeUses_def Let_def)
  then show ?thesis
    unfolding dropAllReferences_def replaceAllUsesWith_def mapInsts_mapInsts by simp
qed

lemma routeUses_destroy:
  "d \<noteq> li \<Longrightarrow> v \<noteq> InstResult li \<Longrightarrow>
   routeUses li v (Inst d (DestroyValueInst v) []) = Inst d (DestroyValueInst v) []"
  by (simp add: routeUses_def updateOperands_def getAllOperands_def Let_def)

lemma replaceLoadTake_turn:
  assumes ids: "uniqueIds f"
    and copy: "getCopyAddr f copyInst = Some (copyInstSrc, copyInstDest, False, copyInit)"
    and load: "lookupInst f (getUser use) = Some li" "instKind li = LoadInst a LoadTake"
    and dist: "distinct frontier" and notCopy: "copyInst \<notin> set frontier"
    and preds: "\<forall>F \<in> set frontier. \<exists>p. prevInst f F = Some p \<and> instId p \<noteq> copyInst"
    and apart: "\<forall>F \<in> set frontier. \<forall>p. prevInst f F = Some p \<longrightarrow> instId p \<notin> set frontier"
  shows "\<exists>f'. replaceTempUse assertions f copyInst tempObj copySrc frontier use toDelete =
                Inr (f', toDelete @ [instId li]) \<and>
              uniqueIds f' \<and>
              prevInst f' copyInst =
                Some (routeUses (instId li) (InstResult (freshId f))
                        (Inst (freshId f) (LoadInst copyInstSrc LoadCopy) [])) \<and>
              (\<forall>x \<in> set (concat f).
                 lookupInst f' (instId x) = Some (routeUses (instId li) (InstResult (freshId f)) x)) \<and>
              (\<forall>F \<in> set frontier. \<forall>p. prevInst f F = Some p \<longrightarrow>
                 prevInst f' F = Some (routeUses (instId li) (InstResult (freshId f)) p) \<and>
                 (if instId p = instId li
                  then prevInst f' (instId li) =
                         map_option (routeUses (instId li) (InstResult (freshId f)))
                           (prevInst f (instId li))
                  else \<exists>d. d \<notin> instId ` set (concat f) \<and>
                           prevInst f' (instId p) =
                             Some (Inst d (DestroyValueInst (InstResult (freshId f))) [])))"
proof -
  define NL where "NL = Inst (freshId f) (LoadInst copyInstSrc LoadCopy) []"
  define v where "v = InstResult (freshId f)"
  define f1 where "f1 = insertBefore f copyInst NL"
  let ?route = "routeUses (instId li) v"
  have NLid: "instId NL = freshId f" by (simp add: NL_def)
  have fresh: "instId NL \<notin> instId ` set (concat f)" using freshId_notin NLid by simp
  have ids1: "uniqueIds f1" unfolding f1_def using ids fresh by (rule insertBefore_uniqueIds)
  from lookupInst_member [OF load(1)] have li: "li \<in> set (concat f)" "instId li = getUser use"
    by auto
  from copy obtain ci where ci: "lookupInst f copyInst = Some ci"
    "instKind ci = CopyAddrInst copyInstSrc copyInstDest False copyInit"
    unfolding getCopyAddr_def by (auto split: option.splits inst_kind.splits)
  from lookupInst_member [OF ci(1)] have cin: "ci \<in> set (concat f)" "instId ci = copyInst"
    by auto
  then have copyIn: "copyInst \<in> instId ` set (concat f)" by blast
  have liNotCopy: "instId li \<noteq> copyInst"
  proof
    assume "instId li = copyInst"
    with load(1) li(2) ci(1) have "li = ci" by simp
    with load(2) ci(2) show False by simp
  qed
  have liFresh: "instId li \<noteq> freshId f" using freshId_fresh [OF li(1)] .
  have prev1: "\<And>i. i \<in> instId ` set (concat f) \<Longrightarrow>
                 prevInst f1 i = (if i = copyInst then Some NL else prevInst f i)"
  proof -
    fix i assume "i \<in> instId ` set (concat f)"
    with fresh have "i \<noteq> instId NL" by blast
    from prevInst_insertBefore [OF this, of f copyInst] copyIn
    show "prevInst f1 i = (if i = copyInst then Some NL else prevInst f i)"
      by (simp add: f1_def)
  qed
  have frIn: "\<And>F. F \<in> set frontier \<Longrightarrow> F \<in> instId ` set (concat f)"
  proof -
    fix F assume "F \<in> set frontier"
    with preds obtain p where "prevInst f F = Some p" by blast
    from prevInst_in_func [OF this] show "F \<in> instId ` set (concat f)" by simp
  qed
  have frPrev: "\<And>F. F \<in> set frontier \<Longrightarrow> prevInst f1 F = prevInst f F"
  proof -
    fix F assume F: "F \<in> set frontier"
    with notCopy have "F \<noteq> copyInst" by blast
    with prev1 [OF frIn [OF F]] show "prevInst f1 F = prevInst f F" by simp
  qed
  have preds1: "\<forall>F \<in> set frontier. prevInst f1 F \<noteq> None" using preds frPrev by auto
  have apart1: "\<forall>F \<in> set frontier. \<forall>F' \<in> set frontier. \<forall>p.
                  prevInst f1 F = Some p \<longrightarrow> instId p \<noteq> F'"
    using apart frPrev by auto
  from insertCompensatingDestroys_frontier [OF ids1 dist preds1 apart1, of assertions "instId li" v]
  obtain f2 where
    f2: "insertCompensatingDestroys assertions f1 frontier (instId li) v = Inr f2"
      and ids2: "uniqueIds f2"
      and sub2: "set (concat f1) \<subseteq> set (concat f2)"
      and ca: "\<forall>F \<in> set frontier. \<forall>p. prevInst f1 F = Some p \<and> instId p \<noteq> instId li \<longrightarrow>
           (\<exists>d. d \<notin> instId ` set (concat f1) \<and>
                prevInst f2 (instId p) = Some (Inst d (DestroyValueInst v) []))"
      and cb: "\<forall>i \<in> instId ` set (concat f1).
           (\<forall>F \<in> set frontier. \<forall>p. prevInst f1 F = Some p \<longrightarrow>
               instId p = instId li \<or> instId p \<noteq> i) \<longrightarrow>
           prevInst f2 i = prevInst f1 i"
    by blast
  define f' where "f' = mapInsts ?route f2"
  from set_insertBefore [of f copyInst NL]
  have sub1: "set (concat f) \<subseteq> set (concat f1)" by (simp add: f1_def)
  then have idsub1: "instId ` set (concat f) \<subseteq> instId ` set (concat f1)" by blast
  have res: "replaceTempUse assertions f copyInst tempObj copySrc frontier use toDelete =
               Inr (f', toDelete @ [instId li])"
    using copy load f2 li(2)
    by (simp add: replaceTempUse_def replaceLoadTake_def Let_def f'_def f1_def NL_def v_def
                  drop_replace_routeUses)
  have prevF': "\<And>i. prevInst f' i = map_option ?route (prevInst f2 i)"
    unfolding f'_def by (rule prevInst_mapInsts) simp
  have ids': "uniqueIds f'"
    using ids2 unfolding f'_def uniqueIds_def mapInsts_def
    by (simp add: map_concat comp_def)
  have c1: "prevInst f' copyInst = Some (?route NL)"
  proof -
    have "\<forall>F \<in> set frontier. \<forall>p. prevInst f1 F = Some p \<longrightarrow>
            instId p = instId li \<or> instId p \<noteq> copyInst"
      using preds frPrev by auto
    moreover have "copyInst \<in> instId ` set (concat f1)" using copyIn idsub1 by blast
    ultimately have "prevInst f2 copyInst = prevInst f1 copyInst" using cb by blast
    with prev1 [OF copyIn] prevF' show ?thesis by simp
  qed
  have c2: "\<forall>x \<in> set (concat f). lookupInst f' (instId x) = Some (?route x)"
  proof
    fix x assume "x \<in> set (concat f)"
    with sub1 sub2 have "x \<in> set (concat f2)" by blast
    with ids2 have "lookupInst f2 (instId x) = Some x" by (rule lookupInst_unique)
    moreover have "lookupInst f' (instId x) = map_option ?route (lookupInst f2 (instId x))"
      unfolding f'_def by (rule lookupInst_mapInsts) simp
    ultimately show "lookupInst f' (instId x) = Some (?route x)" by simp
  qed
  have c3: "\<forall>F \<in> set frontier. \<forall>p. prevInst f F = Some p \<longrightarrow>
              prevInst f' F = Some (?route p) \<and>
              (if instId p = instId li
               then prevInst f' (instId li) = map_option ?route (prevInst f (instId li))
               else \<exists>d. d \<notin> instId ` set (concat f) \<and>
                        prevInst f' (instId p) = Some (Inst d (DestroyValueInst v) []))"
  proof (intro ballI allI impI)
    fix F p assume F: "F \<in> set frontier" and p: "prevInst f F = Some p"
    have p1: "prevInst f1 F = Some p" using frPrev [OF F] p by simp
    have "\<forall>F' \<in> set frontier. \<forall>q. prevInst f1 F' = Some q \<longrightarrow>
            instId q = instId li \<or> instId q \<noteq> F"
      using apart frPrev F by auto
    moreover have "F \<in> instId ` set (concat f1)" using frIn [OF F] idsub1 by blast
    ultimately have "prevInst f2 F = prevInst f1 F" using cb by blast
    with p1 prevF' have a: "prevInst f' F = Some (?route p)" by simp
    have b: "if instId p = instId li
             then prevInst f' (instId li) = map_option ?route (prevInst f (instId li))
             else \<exists>d. d \<notin> instId ` set (concat f) \<and>
                      prevInst f' (instId p) = Some (Inst d (DestroyValueInst v) [])"
    proof (cases "instId p = instId li")
      case True
      have "instId li \<in> instId ` set (concat f1)" using li(1) sub1 by blast
      with cb have "prevInst f2 (instId li) = prevInst f1 (instId li)" by blast
      moreover have "prevInst f1 (instId li) = prevInst f (instId li)"
        using prev1 [of "instId li"] li(1) liNotCopy by auto
      ultimately show ?thesis using True prevF' by simp
    next
      case False
      with ca F p1 obtain d where d: "d \<notin> instId ` set (concat f1)"
        "prevInst f2 (instId p) = Some (Inst d (DestroyValueInst v) [])" by blast
      from d(1) idsub1 have dn: "d \<notin> instId ` set (concat f)" by blast
      with li(1) have "d \<noteq> instId li" by blast
      moreover have "v \<noteq> InstResult (instId li)" using liFresh by (simp add: v_def)
      ultimately have "?route (Inst d (DestroyValueInst v) []) = Inst d (DestroyValueInst v) []"
        by (rule routeUses_destroy)
      with d(2) prevF' have "prevInst f' (instId p) = Some (Inst d (DestroyValueInst v) [])"
        by simp
      with dn False show ?thesis by auto
    qed
    from a b show "prevInst f' F = Some (?route p) \<and>
              (if instId p = instId li
               then prevInst f' (instId li) = map_option ?route (prevInst f (instId li))
               else \<exists>d. d \<notin> instId ` set (concat f) \<and>
                        prevInst f' (instId p) = Some (Inst d (DestroyValueInst v) []))" ..
  qed
  from res ids' c1 c2 c3 show ?thesis unfolding NL_def v_def by blast
qed

subsection \<open>The number of uses of the temporary\<close>

lemma filter_length_mono:
  "(\<forall>x \<in> set xs. P x \<longrightarrow> Q x) \<Longrightarrow> length (filter P xs) \<le> length (filter Q xs)"
  by (induction xs) auto

lemma filter_length_strict:
  "(\<forall>x \<in> set xs. P x \<longrightarrow> Q x) \<Longrightarrow> \<exists>x \<in> set xs. Q x \<and> \<not> P x \<Longrightarrow>
   length (filter P xs) < length (filter Q xs)"
proof (induction xs)
  case Nil
  then show ?case by simp
next
  case (Cons y ys)
  from Cons.prems(1) have m: "length (filter P ys) \<le> length (filter Q ys)"
    by (intro filter_length_mono) simp
  show ?case
  proof (cases "Q y \<and> \<not> P y")
    case True
    with m show ?thesis by simp
  next
    case False
    with Cons.prems have "\<exists>x \<in> set ys. Q x \<and> \<not> P x" by auto
    with Cons.IH Cons.prems(1) have "length (filter P ys) < length (filter Q ys)" by simp
    with Cons.prems(1) show ?thesis by auto
  qed
qed

lemma sum_list_less:
  fixes m :: "'a \<Rightarrow> nat"
  shows "(\<forall>x \<in> set xs. m x \<le> k x) \<Longrightarrow> \<exists>x \<in> set xs. m x < k x \<Longrightarrow>
         sum_list (map m xs) < sum_list (map k xs)"
proof (induction xs)
  case Nil
  then show ?case by simp
next
  case (Cons y ys)
  from Cons.prems(1) have le: "sum_list (map m ys) \<le> sum_list (map k ys)"
    by (intro sum_list_mono) simp
  show ?case
  proof (cases "m y < k y")
    case True
    with le show ?thesis by simp
  next
    case False
    with Cons.prems have "\<exists>x \<in> set ys. m x < k x" by auto
    with Cons.IH Cons.prems(1) have "sum_list (map m ys) < sum_list (map k ys)" by simp
    moreover from Cons.prems(1) have "m y \<le> k y" by simp
    ultimately show ?thesis by simp
  qed
qed

lemma length_getUses:
  "length (getUses f v) = sum_list (map (\<lambda>i. length (usesIn v i)) (concat f))"
  unfolding getUses_def by (simp add: length_concat comp_def)

lemma concat_mapInsts_list: "concat (mapInsts h f) = map h (concat f)"
  unfolding mapInsts_def by (simp add: map_concat)

lemma length_getUses_mapInsts:
  "length (getUses (mapInsts h f) v) = sum_list (map (\<lambda>i. length (usesIn v (h i))) (concat f))"
  unfolding length_getUses concat_mapInsts_list by (simp add: comp_def)

lemma getUses_mapInsts_less:
  assumes "\<forall>i \<in> set (concat f). length (usesIn v (h i)) \<le> length (usesIn v i)"
    and "\<exists>i \<in> set (concat f). length (usesIn v (h i)) < length (usesIn v i)"
  shows "length (getUses (mapInsts h f) v) < length (getUses f v)"
proof -
  have "length (getUses (mapInsts h f) v) =
          sum_list (map (\<lambda>i. length (usesIn v (h i))) (concat f))"
    by (rule length_getUses_mapInsts)
  also have "\<dots> < sum_list (map (\<lambda>i. length (usesIn v i)) (concat f))"
    using assms by (rule sum_list_less)
  also have "\<dots> = length (getUses f v)" by (rule length_getUses [symmetric])
  finally show ?thesis .
qed

lemma length_usesIn:
  "length (usesIn v i) =
     length (filter (\<lambda>n. getAllOperands i ! n = v) [0..<length (getAllOperands i)])"
  by (simp add: usesIn_def)

lemma usesIn_le:
  assumes "length (getAllOperands y) = length (getAllOperands x)"
    and "\<forall>n < length (getAllOperands x). getAllOperands y ! n = v \<longrightarrow> getAllOperands x ! n = v"
  shows "length (usesIn v y) \<le> length (usesIn v x)"
  unfolding length_usesIn assms(1) using assms(2) by (intro filter_length_mono) simp

lemma usesIn_less:
  assumes "length (getAllOperands y) = length (getAllOperands x)"
    and "\<forall>n < length (getAllOperands x). getAllOperands y ! n = v \<longrightarrow> getAllOperands x ! n = v"
    and "\<exists>n < length (getAllOperands x). getAllOperands x ! n = v \<and> getAllOperands y ! n \<noteq> v"
  shows "length (usesIn v y) < length (usesIn v x)"
  unfolding length_usesIn assms(1) using assms(2,3) by (intro filter_length_strict) auto

lemma usesIn_memberD:
  "u \<in> set (usesIn v x) \<Longrightarrow>
   getUser u = instId x \<and> operandNumber u < length (getAllOperands x) \<and>
   getAllOperands x ! operandNumber u = v"
  unfolding usesIn_def by auto

lemma getUses_memberD:
  "u \<in> set (getUses f v) \<Longrightarrow>
   \<exists>x \<in> set (concat f). getUser u = instId x \<and> operandNumber u < length (getAllOperands x) \<and>
                        getAllOperands x ! operandNumber u = v"
  unfolding getUses_def using usesIn_memberD by fastforce

lemma usesIn_operand:
  "v \<in> set (getAllOperands x) \<Longrightarrow> usesIn v x \<noteq> []"
  unfolding usesIn_def by (auto simp: filter_empty_conv in_set_conv_nth)

lemma sum_list_insertInBlock:
  fixes m :: "inst \<Rightarrow> nat"
  shows "m new = 0 \<Longrightarrow> sum_list (map m (insertInBlock p new blk)) = sum_list (map m blk)"
  by (induction blk) auto

lemma length_getUses_insertBefore:
  "v \<notin> set (getAllOperands new) \<Longrightarrow>
   length (getUses (insertBefore f p new) v) = length (getUses f v)"
proof -
  assume "v \<notin> set (getAllOperands new)"
  then have z: "length (usesIn v new) = 0" by (simp add: usesIn_none)
  have "sum_list (map (\<lambda>i. length (usesIn v i)) (concat (map (insertInBlock p new) f))) =
        sum_list (map (\<lambda>i. length (usesIn v i)) (concat f))"
    by (induction f)
       (simp_all add: sum_list_insertInBlock [of "\<lambda>i. length (usesIn v i)" new, OF z])
  then show ?thesis unfolding length_getUses insertBefore_def .
qed

lemma length_getUses_destroys:
  "insertCompensatingDestroys a g fr li nv = Inr g2 \<Longrightarrow> nv \<noteq> v \<Longrightarrow>
   length (getUses g2 v) = length (getUses g v)"
proof (induction fr arbitrary: g)
  case Nil
  then show ?case by simp
next
  case (Cons F rest)
  from Cons.prems(1) obtain p where p: "prevInst g F = Some p"
    by (auto split: option.splits)
  show ?case
  proof (cases "instId p = li")
    case True
    with Cons.prems p have "insertCompensatingDestroys a g rest li nv = Inr g2" by simp
    from Cons.IH [OF this Cons.prems(2)] show ?thesis .
  next
    case False
    let ?g' = "insertBefore g (instId p) (Inst (freshId g) (DestroyValueInst nv) [])"
    from False Cons.prems p have "insertCompensatingDestroys a ?g' rest li nv = Inr g2" by simp
    from Cons.IH [OF this Cons.prems(2)]
    have "length (getUses g2 v) = length (getUses ?g' v)" .
    also have "\<dots> = length (getUses g v)"
      using Cons.prems(2) by (intro length_getUses_insertBefore) (simp add: getAllOperands_def)
    finally show ?thesis .
  qed
qed

subsection \<open>What every turn of the loop keeps\<close>

lemma uniqueIds_mapInsts:
  "(\<And>x. instId (h x) = instId x) \<Longrightarrow> uniqueIds (mapInsts h f) = uniqueIds f"
  unfolding uniqueIds_def concat_mapInsts_list by (simp add: comp_def)

lemma getCopyAddr_Some:
  "getCopyAddr g c = Some (s, d, t, i) \<longleftrightarrow>
     (\<exists>x. lookupInst g c = Some x \<and> instKind x = CopyAddrInst s d t i)"
  unfolding getCopyAddr_def by (auto split: option.splits inst_kind.splits)

lemma asAllocStack_Some:
  "(\<exists>tempInst. asAllocStack g (InstResult t) = Some tempInst) \<longleftrightarrow>
     (\<exists>x dyn. lookupInst g t = Some x \<and> instKind x = AllocStackInst dyn)"
  unfolding asAllocStack_def by (auto split: option.splits inst_kind.splits)

lemma rewriteReady_mapInsts:
  assumes R: "rewriteReady g copyInst tempObj copyTake frontier"
    and idp: "\<And>x. instId (h x) = instId x"
    and copyc: "\<And>c s d i. lookupInst g copyInst = Some c \<Longrightarrow>
                  instKind c = CopyAddrInst s d copyTake i \<Longrightarrow> s \<noteq> InstResult tempObj \<Longrightarrow>
                  \<exists>s' d' i'. instKind (h c) = CopyAddrInst s' d' copyTake i' \<and>
                             s' \<noteq> InstResult tempObj"
    and allocc: "\<And>a dyn. lookupInst g tempObj = Some a \<Longrightarrow> instKind a = AllocStackInst dyn \<Longrightarrow>
                  \<exists>dyn'. instKind (h a) = AllocStackInst dyn'"
    and Pc: "\<And>x. x \<in> set (concat g) \<Longrightarrow> copyReadsTemp copyInst tempObj x \<Longrightarrow>
               copyReadsTemp copyInst tempObj (h x)"
  shows "rewriteReady (mapInsts h g) copyInst tempObj copyTake frontier"
proof -
  from R have ids: "uniqueIds g"
    and copy: "\<exists>src dest init. getCopyAddr g copyInst = Some (src, dest, copyTake, init) \<and>
                              src \<noteq> InstResult tempObj"
    and alloc: "\<exists>tempInst. asAllocStack g (InstResult tempObj) = Some tempInst"
    and preds: "\<forall>F \<in> set frontier. prevInst g F \<noteq> None"
    and P: "\<forall>x \<in> set (concat g). copyReadsTemp copyInst tempObj x"
    unfolding rewriteReady_def by auto
  have look: "\<And>i. lookupInst (mapInsts h g) i = map_option h (lookupInst g i)"
    using idp by (rule lookupInst_mapInsts)
  have r1: "uniqueIds (mapInsts h g)" using ids idp by (simp add: uniqueIds_mapInsts)
  from copy obtain src dest init c where
    c: "lookupInst g copyInst = Some c" "instKind c = CopyAddrInst src dest copyTake init"
       "src \<noteq> InstResult tempObj"
    unfolding getCopyAddr_Some by blast
  from copyc [OF c] obtain s' d' i' where
    "instKind (h c) = CopyAddrInst s' d' copyTake i'" "s' \<noteq> InstResult tempObj" by blast
  with c(1) look have r2: "\<exists>src dest init.
      getCopyAddr (mapInsts h g) copyInst = Some (src, dest, copyTake, init) \<and>
      src \<noteq> InstResult tempObj"
    unfolding getCopyAddr_Some by auto
  from alloc obtain a dyn where a: "lookupInst g tempObj = Some a" "instKind a = AllocStackInst dyn"
    unfolding asAllocStack_Some by blast
  from allocc [OF a] a(1) look
  have r3: "\<exists>tempInst. asAllocStack (mapInsts h g) (InstResult tempObj) = Some tempInst"
    unfolding asAllocStack_Some by auto
  have r4: "\<forall>F \<in> set frontier. prevInst (mapInsts h g) F \<noteq> None"
    using preds prevInst_mapInsts [of h g, OF idp] by simp
  have r5: "\<forall>x \<in> set (concat (mapInsts h g)). copyReadsTemp copyInst tempObj x"
    using P Pc unfolding concat_mapInsts_list by auto
  from r1 r2 r3 r4 r5 show ?thesis unfolding rewriteReady_def by blast
qed

lemma updateOperands_copy:
  assumes "instKind x = CopyAddrInst s d t i" and len: "\<And>xs. length (k xs) = length xs"
  shows "instKind (updateOperands k x) =
           CopyAddrInst (k (s # d # typeDependentOperands x) ! 0)
                        (k (s # d # typeDependentOperands x) ! 1) t i"
    and "typeDependentOperands (updateOperands k x) = drop 2 (k (s # d # typeDependentOperands x))"
    and "getAllOperands x = s # d # typeDependentOperands x"
proof -
  show ops: "getAllOperands x = s # d # typeDependentOperands x"
    using assms(1) by (simp add: getAllOperands_def)
  have "length (k (s # d # typeDependentOperands x)) = Suc (Suc (length (typeDependentOperands x)))"
    by (simp add: len)
  then obtain a b rest where k: "k (s # d # typeDependentOperands x) = a # b # rest"
    by (metis length_Suc_conv)
  show "instKind (updateOperands k x) =
           CopyAddrInst (k (s # d # typeDependentOperands x) ! 0)
                        (k (s # d # typeDependentOperands x) ! 1) t i"
    using assms(1) ops k by (simp add: updateOperands_def Let_def)
  show "typeDependentOperands (updateOperands k x) = drop 2 (k (s # d # typeDependentOperands x))"
    using assms(1) ops k by (simp add: updateOperands_def Let_def)
qed

lemma updateOperands_alloc:
  "instKind x = AllocStackInst dyn \<Longrightarrow> instKind (updateOperands k x) = AllocStackInst dyn"
  by (simp add: updateOperands_def Let_def)

lemma updateOperands_not_copy:
  "\<not> (\<exists>s d t i. instKind x = CopyAddrInst s d t i) \<Longrightarrow>
   copyReadsTemp copyInst tempObj (updateOperands k x)"
  by (cases "instKind x") (simp_all add: copyReadsTemp_def updateOperands_def Let_def)

lemma copyReadsTemp_updateOperands:
  assumes len: "\<And>xs. length (k xs) = length xs"
    and P: "copyReadsTemp copyInst tempObj x"
    and absent: "\<And>vs. InstResult tempObj \<notin> set vs \<Longrightarrow> InstResult tempObj \<notin> set (k vs)"
    and reads: "\<And>d tdo. d \<noteq> InstResult tempObj \<Longrightarrow> InstResult tempObj \<notin> set tdo \<Longrightarrow>
                  InstResult tempObj \<notin> set (k (InstResult tempObj # d # tdo)) \<or>
                  (k (InstResult tempObj # d # tdo) ! 0 = InstResult tempObj \<and>
                   k (InstResult tempObj # d # tdo) ! 1 \<noteq> InstResult tempObj \<and>
                   InstResult tempObj \<notin> set (drop 2 (k (InstResult tempObj # d # tdo))))"
  shows "copyReadsTemp copyInst tempObj (updateOperands k x)"
proof (cases "\<exists>s d t i. instKind x = CopyAddrInst s d t i")
  case False
  then show ?thesis by (rule updateOperands_not_copy)
next
  case True
  then obtain s d t i where kind: "instKind x = CopyAddrInst s d t i" by blast
  note u = updateOperands_copy [OF kind len]
  have ops': "getAllOperands (updateOperands k x) = k (s # d # typeDependentOperands x)"
    using getAllOperands_updateOperands [of k x, OF len] u(3) by simp
  from P kind have "instId x = copyInst \<or> InstResult tempObj \<notin> set (getAllOperands x) \<or>
          (s = InstResult tempObj \<and> d \<noteq> InstResult tempObj \<and>
           InstResult tempObj \<notin> set (typeDependentOperands x))"
    by (simp add: copyReadsTemp_def)
  then consider (c) "instId x = copyInst"
    | (n) "InstResult tempObj \<notin> set (s # d # typeDependentOperands x)"
    | (r) "s = InstResult tempObj" "d \<noteq> InstResult tempObj"
          "InstResult tempObj \<notin> set (typeDependentOperands x)"
    using u(3) by auto
  then show ?thesis
  proof cases
    case c
    then show ?thesis using u(1) by (simp add: copyReadsTemp_def)
  next
    case n
    from absent [OF n] show ?thesis using u(1) ops' by (simp add: copyReadsTemp_def)
  next
    case r
    from reads [OF r(2,3)] r(1) show ?thesis
      using u(1,2) ops' by (auto simp: copyReadsTemp_def)
  qed
qed

lemma copyReadsTemp_set:
  assumes P: "copyReadsTemp copyInst tempObj x" and v: "v \<noteq> InstResult tempObj"
  shows "copyReadsTemp copyInst tempObj (updateOperands (\<lambda>vs. vs[n := v]) x)"
proof (rule copyReadsTemp_updateOperands [OF _ P])
  show "\<And>xs. length (xs[n := v]) = length xs" by simp
  show "\<And>vs. InstResult tempObj \<notin> set vs \<Longrightarrow> InstResult tempObj \<notin> set (vs[n := v])"
    using v by (metis insert_iff set_update_subset_insert subsetD)
  fix d tdo assume d: "d \<noteq> InstResult tempObj" and t: "InstResult tempObj \<notin> set tdo"
  have t': "\<And>m. InstResult tempObj \<notin> set (tdo[m := v])"
    using v t by (metis insert_iff set_update_subset_insert subsetD)
  show "InstResult tempObj \<notin> set ((InstResult tempObj # d # tdo)[n := v]) \<or>
        ((InstResult tempObj # d # tdo)[n := v] ! 0 = InstResult tempObj \<and>
         (InstResult tempObj # d # tdo)[n := v] ! 1 \<noteq> InstResult tempObj \<and>
         InstResult tempObj \<notin> set (drop 2 ((InstResult tempObj # d # tdo)[n := v])))"
  proof (cases n)
    case 0
    with v d t show ?thesis by auto
  next
    case (Suc m)
    show ?thesis
    proof (cases m)
      case 0
      with Suc v d t show ?thesis by auto
    next
      case (Suc m')
      with \<open>n = Suc m\<close> d t' [of m'] show ?thesis by auto
    qed
  qed
qed

lemma copyReadsTemp_replace:
  assumes P: "copyReadsTemp copyInst tempObj x"
    and old: "old \<noteq> InstResult tempObj" and new: "new \<noteq> InstResult tempObj"
  shows "copyReadsTemp copyInst tempObj
           (updateOperands (map (\<lambda>v. if v = old then new else v)) x)"
  by (rule copyReadsTemp_updateOperands [OF _ P]) (use old new in auto)

lemma copyReadsTemp_drop:
  assumes P: "copyReadsTemp copyInst tempObj x"
  shows "copyReadsTemp copyInst tempObj (updateOperands (map (\<lambda>_. NullValue)) x)"
  by (rule copyReadsTemp_updateOperands [OF _ P]) auto

lemma copyReadsTemp_routeUses:
  assumes P: "copyReadsTemp copyInst tempObj x"
    and old: "li \<noteq> tempObj" and new: "v \<noteq> InstResult tempObj"
  shows "copyReadsTemp copyInst tempObj (routeUses li v x)"
proof -
  have "copyReadsTemp copyInst tempObj
          (updateOperands (map (\<lambda>u. if u = InstResult li then v else u)) x)"
    using P old new by (intro copyReadsTemp_replace) auto
  then show ?thesis unfolding routeUses_def Let_def by (auto intro: copyReadsTemp_drop)
qed

lemma use_in_function:
  assumes "uniqueIds g" "use \<in> set (getUses g v)"
  shows "\<exists>x. lookupInst g (getUser use) = Some x \<and> x \<in> set (concat g) \<and>
             instId x = getUser use \<and>
             operandNumber use < length (getAllOperands x) \<and>
             getAllOperands x ! operandNumber use = v"
proof -
  from getUses_memberD [OF assms(2)] obtain x where
    x: "x \<in> set (concat g)" "getUser use = instId x"
       "operandNumber use < length (getAllOperands x)"
       "getAllOperands x ! operandNumber use = v" by blast
  from lookupInst_unique [OF assms(1) x(1)] x show ?thesis by auto
qed

lemma only_instruction:
  "uniqueIds g \<Longrightarrow> lookupInst g u = Some x \<Longrightarrow> i \<in> set (concat g) \<Longrightarrow> instId i = u \<Longrightarrow> i = x"
  using lookupInst_unique by fastforce

lemma setOperand_ready:
  assumes R: "rewriteReady g copyInst tempObj copyTake frontier"
    and v: "v \<noteq> InstResult tempObj"
  shows "rewriteReady (setOperand g use v) copyInst tempObj copyTake frontier"
  unfolding setOperand_def
proof (rule rewriteReady_mapInsts [OF R])
  fix c s d i
  assume "instKind c = CopyAddrInst s d copyTake i" "s \<noteq> InstResult tempObj"
  then show "\<exists>s' d' i'.
       instKind (if instId c = getUser use
                 then updateOperands (\<lambda>vs. vs[operandNumber use := v]) c else c) =
         CopyAddrInst s' d' copyTake i' \<and> s' \<noteq> InstResult tempObj"
    using v updateOperands_copy(1) [of c s d copyTake i "\<lambda>vs. vs[operandNumber use := v]"]
    by (cases "operandNumber use") auto
next
  fix a dyn assume "instKind a = AllocStackInst dyn"
  then show "\<exists>dyn'. instKind (if instId a = getUser use
                   then updateOperands (\<lambda>vs. vs[operandNumber use := v]) a else a) =
               AllocStackInst dyn'"
    by (simp add: updateOperands_alloc)
next
  fix x assume "copyReadsTemp copyInst tempObj x"
  then show "copyReadsTemp copyInst tempObj
               (if instId x = getUser use
                then updateOperands (\<lambda>vs. vs[operandNumber use := v]) x else x)"
    using v by (simp add: copyReadsTemp_set)
qed simp

lemma nth_update_other: "v \<noteq> t \<Longrightarrow> n < length xs \<Longrightarrow> xs[k := v] ! n = t \<Longrightarrow> xs ! n = t"
  by (cases "n = k") auto

lemma setOperand_less:
  assumes u: "use \<in> set (getUses g t)" and v: "v \<noteq> t"
  shows "length (getUses (setOperand g use v) t) < length (getUses g t)"
  unfolding setOperand_def
proof (rule getUses_mapInsts_less)
  let ?h = "\<lambda>i. if instId i = getUser use
                 then updateOperands (\<lambda>vs. vs[operandNumber use := v]) i else i"
  have ops: "\<And>i. getAllOperands (updateOperands (\<lambda>vs. vs[operandNumber use := v]) i) =
                  (getAllOperands i)[operandNumber use := v]"
    by (rule getAllOperands_updateOperands) simp
  show "\<forall>i \<in> set (concat g). length (usesIn t (?h i)) \<le> length (usesIn t i)"
  proof
    fix i
    show "length (usesIn t (?h i)) \<le> length (usesIn t i)"
    proof (cases "instId i = getUser use")
      case True
      have "length (usesIn t (updateOperands (\<lambda>vs. vs[operandNumber use := v]) i)) \<le>
            length (usesIn t i)"
        using v by (intro usesIn_le) (auto simp: ops intro: nth_update_other)
      with True show ?thesis by simp
    qed simp
  qed
  from getUses_memberD [OF u] obtain x where
    x: "x \<in> set (concat g)" "getUser use = instId x"
       "operandNumber use < length (getAllOperands x)"
       "getAllOperands x ! operandNumber use = t" by blast
  have "length (usesIn t (updateOperands (\<lambda>vs. vs[operandNumber use := v]) x)) <
        length (usesIn t x)"
  proof (rule usesIn_less)
    show "length (getAllOperands (updateOperands (\<lambda>vs. vs[operandNumber use := v]) x)) =
          length (getAllOperands x)" by (simp add: ops)
    show "\<forall>n<length (getAllOperands x).
            getAllOperands (updateOperands (\<lambda>vs. vs[operandNumber use := v]) x) ! n = t \<longrightarrow>
            getAllOperands x ! n = t"
      using v by (auto simp: ops intro: nth_update_other)
    show "\<exists>n<length (getAllOperands x). getAllOperands x ! n = t \<and>
            getAllOperands (updateOperands (\<lambda>vs. vs[operandNumber use := v]) x) ! n \<noteq> t"
      using x(3,4) v by (intro exI [of _ "operandNumber use"]) (simp add: ops)
  qed
  with x(1,2) show "\<exists>i \<in> set (concat g). length (usesIn t (?h i)) < length (usesIn t i)"
    by (intro bexI [of _ x]) simp_all
qed

lemma dropAllReferences_ready:
  assumes R: "rewriteReady g copyInst tempObj copyTake frontier"
  shows "rewriteReady (dropAllReferences g u) copyInst tempObj copyTake frontier"
  unfolding dropAllReferences_def
proof (rule rewriteReady_mapInsts [OF R])
  fix c s d i
  assume "instKind c = CopyAddrInst s d copyTake i" "s \<noteq> InstResult tempObj"
  then show "\<exists>s' d' i'.
       instKind (if instId c = u then updateOperands (map (\<lambda>_. NullValue)) c else c) =
         CopyAddrInst s' d' copyTake i' \<and> s' \<noteq> InstResult tempObj"
    using updateOperands_copy(1) [of c s d copyTake i "map (\<lambda>_. NullValue)"] by auto
next
  fix a dyn assume "instKind a = AllocStackInst dyn"
  then show "\<exists>dyn'. instKind (if instId a = u
                   then updateOperands (map (\<lambda>_. NullValue)) a else a) = AllocStackInst dyn'"
    by (simp add: updateOperands_alloc)
next
  fix x assume "copyReadsTemp copyInst tempObj x"
  then show "copyReadsTemp copyInst tempObj
               (if instId x = u then updateOperands (map (\<lambda>_. NullValue)) x else x)"
    by (simp add: copyReadsTemp_drop)
qed simp

lemma dropAllReferences_less:
  assumes x: "x \<in> set (concat g)" "instId x = u" "t \<in> set (getAllOperands x)"
    and t: "t \<noteq> NullValue"
  shows "length (getUses (dropAllReferences g u) t) < length (getUses g t)"
  unfolding dropAllReferences_def
proof (rule getUses_mapInsts_less)
  let ?h = "\<lambda>i. if instId i = u then updateOperands (map (\<lambda>_. NullValue)) i else i"
  have ops: "\<And>i. getAllOperands (updateOperands (map (\<lambda>_. NullValue)) i) =
                  map (\<lambda>_. NullValue) (getAllOperands i)"
    by (rule getAllOperands_updateOperands) simp
  have none: "\<And>i. usesIn t (updateOperands (map (\<lambda>_. NullValue)) i) = []"
    using t by (intro usesIn_none) (auto simp: ops)
  show "\<forall>i \<in> set (concat g). length (usesIn t (?h i)) \<le> length (usesIn t i)"
    by (simp add: none)
  from usesIn_operand [OF x(3)] have "0 < length (usesIn t x)" by simp
  with x(1,2) show "\<exists>i \<in> set (concat g). length (usesIn t (?h i)) < length (usesIn t i)"
    by (intro bexI [of _ x]) (simp_all add: none)
qed

lemma setKind_ready:
  assumes R: "rewriteReady g copyInst tempObj copyTake frontier"
    and x: "lookupInst g u = Some x" "instKind x = CopyAddrInst s d t i" "u \<noteq> copyInst"
  shows "rewriteReady (setKind g u (CopyAddrInst s d False i)) copyInst tempObj copyTake frontier"
    and "getUses (setKind g u (CopyAddrInst s d False i)) v = getUses g v"
    and "lookupInst (setKind g u (CopyAddrInst s d False i)) u =
           Some (Inst u (CopyAddrInst s d False i) (typeDependentOperands x))"
proof -
  let ?h = "\<lambda>y. if instId y = u then Inst u (CopyAddrInst s d False i) (typeDependentOperands y)
                 else y"
  from R have ids: "uniqueIds g" unfolding rewriteReady_def by simp
  have idp: "\<And>y. instId (?h y) = instId y" by simp
  from lookupInst_member [OF x(1)] have xin: "x \<in> set (concat g)" "instId x = u" by auto
  show "rewriteReady (setKind g u (CopyAddrInst s d False i)) copyInst tempObj copyTake frontier"
    unfolding setKind_def
  proof (rule rewriteReady_mapInsts [OF R idp])
    fix c s' d' i'
    assume "lookupInst g copyInst = Some c" "instKind c = CopyAddrInst s' d' copyTake i'"
      "s' \<noteq> InstResult tempObj"
    moreover from this(1) lookupInst_member have "instId c = copyInst" by blast
    ultimately show "\<exists>s'' d'' i''. instKind (?h c) = CopyAddrInst s'' d'' copyTake i'' \<and>
                       s'' \<noteq> InstResult tempObj"
      using x(3) by auto
  next
    fix a dyn assume a: "lookupInst g tempObj = Some a" "instKind a = AllocStackInst dyn"
    from a(1) lookupInst_member have "instId a = tempObj" by blast
    have "instId a \<noteq> u"
    proof
      assume "instId a = u"
      with a(1) \<open>instId a = tempObj\<close> x(1) have "a = x" by simp
      with a(2) x(2) show False by simp
    qed
    with a(2) show "\<exists>dyn'. instKind (?h a) = AllocStackInst dyn'" by simp
  next
    fix y assume y: "y \<in> set (concat g)" "copyReadsTemp copyInst tempObj y"
    show "copyReadsTemp copyInst tempObj (?h y)"
    proof (cases "instId y = u")
      case True
      with only_instruction [OF ids x(1) y(1)] have "y = x" by simp
      with y(2) x(2) True show ?thesis
        by (simp add: copyReadsTemp_def getAllOperands_def)
    qed (use y(2) in simp)
  qed
  have "mapInsts ?h g = map (map ?h) g" by (simp add: mapInsts_def)
  have same: "\<And>y. y \<in> set (concat g) \<Longrightarrow> usesIn v (?h y) = usesIn v y"
  proof -
    fix y assume y: "y \<in> set (concat g)"
    show "usesIn v (?h y) = usesIn v y"
    proof (cases "instId y = u")
      case True
      with only_instruction [OF ids x(1) y] have "y = x" by simp
      with x(2) True show ?thesis by (simp add: usesIn_def getAllOperands_def)
    qed simp
  qed
  show "getUses (setKind g u (CopyAddrInst s d False i)) v = getUses g v"
  proof -
    have e: "map (\<lambda>y. usesIn v (?h y)) (concat g) = map (usesIn v) (concat g)"
      using same by (intro map_cong) auto
    have "getUses (setKind g u (CopyAddrInst s d False i)) v =
            concat (map (\<lambda>y. usesIn v (?h y)) (concat g))"
      unfolding setKind_def getUses_def concat_mapInsts_list by (simp add: comp_def)
    also have "\<dots> = getUses g v" unfolding getUses_def by (simp only: e)
    finally show ?thesis .
  qed
  show "lookupInst (setKind g u (CopyAddrInst s d False i)) u =
           Some (Inst u (CopyAddrInst s d False i) (typeDependentOperands x))"
    unfolding setKind_def using lookupInst_mapInsts [of ?h g u, OF idp] x(1) xin(2) by simp
qed

lemma copyReadsTemp_not_copy:
  "\<not> (\<exists>s d t i. instKind x = CopyAddrInst s d t i) \<Longrightarrow> copyReadsTemp copyInst tempObj x"
  by (cases "instKind x") (simp_all add: copyReadsTemp_def)

lemma insertBefore_ready:
  assumes R: "rewriteReady g copyInst tempObj copyTake frontier"
    and new: "instId new = freshId g" "\<not> (\<exists>s d t i. instKind new = CopyAddrInst s d t i)"
  shows "rewriteReady (insertBefore g p new) copyInst tempObj copyTake frontier"
proof -
  from R have ids: "uniqueIds g"
    and copy: "\<exists>src dest init. getCopyAddr g copyInst = Some (src, dest, copyTake, init) \<and>
                              src \<noteq> InstResult tempObj"
    and alloc: "\<exists>tempInst. asAllocStack g (InstResult tempObj) = Some tempInst"
    and preds: "\<forall>F \<in> set frontier. prevInst g F \<noteq> None"
    and P: "\<forall>x \<in> set (concat g). copyReadsTemp copyInst tempObj x"
    unfolding rewriteReady_def by auto
  have fresh: "instId new \<notin> instId ` set (concat g)" using new(1) freshId_notin by simp
  have look: "\<And>i. i \<in> instId ` set (concat g) \<Longrightarrow>
                lookupInst (insertBefore g p new) i = lookupInst g i"
  proof -
    fix i assume "i \<in> instId ` set (concat g)"
    with fresh have "i \<noteq> instId new" by blast
    then show "lookupInst (insertBefore g p new) i = lookupInst g i"
      by (rule lookupInst_insertBefore)
  qed
  have inF: "\<And>i y. lookupInst g i = Some y \<Longrightarrow> i \<in> instId ` set (concat g)"
    using lookupInst_member by blast
  have r1: "uniqueIds (insertBefore g p new)" using ids fresh by (rule insertBefore_uniqueIds)
  from copy obtain src dest init c where
    c: "lookupInst g copyInst = Some c" "instKind c = CopyAddrInst src dest copyTake init"
       "src \<noteq> InstResult tempObj"
    unfolding getCopyAddr_Some by blast
  from look [OF inF [OF c(1)]] c
  have r2: "\<exists>src dest init.
      getCopyAddr (insertBefore g p new) copyInst = Some (src, dest, copyTake, init) \<and>
      src \<noteq> InstResult tempObj"
    unfolding getCopyAddr_Some by auto
  from alloc obtain a dyn where a: "lookupInst g tempObj = Some a" "instKind a = AllocStackInst dyn"
    unfolding asAllocStack_Some by blast
  from look [OF inF [OF a(1)]] a
  have r3: "\<exists>tempInst. asAllocStack (insertBefore g p new) (InstResult tempObj) = Some tempInst"
    unfolding asAllocStack_Some by auto
  have r4: "\<forall>F \<in> set frontier. prevInst (insertBefore g p new) F \<noteq> None"
  proof
    fix F assume "F \<in> set frontier"
    with preds obtain q where q: "prevInst g F = Some q" by auto
    from prevInst_in_func [OF q] fresh have "F \<noteq> instId new" by blast
    from prevInst_insertBefore [OF this, of g p] q
    show "prevInst (insertBefore g p new) F \<noteq> None" by simp
  qed
  have r5: "\<forall>x \<in> set (concat (insertBefore g p new)). copyReadsTemp copyInst tempObj x"
  proof
    fix x assume "x \<in> set (concat (insertBefore g p new))"
    with set_insertBefore [of g p new] have "x = new \<or> x \<in> set (concat g)" by blast
    with P copyReadsTemp_not_copy [OF new(2)] show "copyReadsTemp copyInst tempObj x" by blast
  qed
  from r1 r2 r3 r4 r5 show ?thesis unfolding rewriteReady_def by blast
qed

lemma insertCompensatingDestroys_ready:
  "rewriteReady g copyInst tempObj copyTake frontier \<Longrightarrow> set fr \<subseteq> set frontier \<Longrightarrow>
   \<exists>g2. insertCompensatingDestroys a g fr li nv = Inr g2 \<and>
        rewriteReady g2 copyInst tempObj copyTake frontier \<and>
        set (concat g) \<subseteq> set (concat g2)"
proof (induction fr arbitrary: g)
  case Nil
  then show ?case by simp
next
  case (Cons F rest)
  from Cons.prems have "prevInst g F \<noteq> None" unfolding rewriteReady_def by auto
  then obtain p where p: "prevInst g F = Some p" by auto
  from Cons.prems(2) have sub: "set rest \<subseteq> set frontier" by simp
  show ?case
  proof (cases "instId p = li")
    case True
    with Cons.IH [OF Cons.prems(1) sub] p show ?thesis by simp
  next
    case False
    let ?D = "Inst (freshId g) (DestroyValueInst nv) []"
    let ?g' = "insertBefore g (instId p) ?D"
    have "rewriteReady ?g' copyInst tempObj copyTake frontier"
      using Cons.prems(1) by (rule insertBefore_ready) simp_all
    from Cons.IH [OF this sub] obtain g2 where
      g2: "insertCompensatingDestroys a ?g' rest li nv = Inr g2"
          "rewriteReady g2 copyInst tempObj copyTake frontier"
          "set (concat ?g') \<subseteq> set (concat g2)" by blast
    from set_insertBefore [of g "instId p" ?D] g2(3)
    have "set (concat g) \<subseteq> set (concat g2)" by blast
    with g2 p False show ?thesis by simp
  qed
qed

lemma getAllOperands_routeUses:
  "getAllOperands (routeUses li v x) =
     (if instId x = li then map (\<lambda>_. NullValue) (getAllOperands x)
      else map (\<lambda>u. if u = InstResult li then v else u) (getAllOperands x))"
  unfolding routeUses_def Let_def
  by (simp add: getAllOperands_updateOperands)

lemma alloc_is_no_load:
  assumes "lookupInst g t = Some a" "instKind a = AllocStackInst dyn"
    and "lookupInst g l = Some x" "instKind x = LoadInst b q"
  shows "l \<noteq> t"
  using assms by auto

lemma replaceLoadTake_ready:
  assumes R: "rewriteReady g copyInst tempObj copyTake frontier"
    and copy: "getCopyAddr g copyInst = Some (src, dest, copyTake, init)"
    and x: "lookupInst g li = Some x" "instKind x = LoadInst b q"
           "InstResult tempObj \<in> set (getAllOperands x)"
  shows "\<exists>g'. replaceLoadTake a g copyInst src frontier li td = Inr (g', td @ [li]) \<and>
              rewriteReady g' copyInst tempObj copyTake frontier \<and>
              length (getUses g' (InstResult tempObj)) < length (getUses g (InstResult tempObj)) \<and>
              (\<forall>y \<in> set (concat g).
                 lookupInst g' (instId y) = Some (routeUses li (InstResult (freshId g)) y))"
proof -
  let ?T = "InstResult tempObj"
  let ?NL = "Inst (freshId g) (LoadInst src LoadCopy) []"
  let ?v = "InstResult (freshId g)"
  let ?g1 = "insertBefore g copyInst ?NL"
  from R have ids: "uniqueIds g"
    and copy': "\<exists>src dest init. getCopyAddr g copyInst = Some (src, dest, copyTake, init) \<and>
                              src \<noteq> ?T"
    and alloc: "\<exists>tempInst. asAllocStack g ?T = Some tempInst"
    unfolding rewriteReady_def by auto
  from copy copy' have src: "src \<noteq> ?T" by auto
  from alloc obtain al dyn where al: "lookupInst g tempObj = Some al" "instKind al = AllocStackInst dyn"
    unfolding asAllocStack_Some by blast
  from alloc_is_no_load [OF al x(1,2)] have liT: "li \<noteq> tempObj" .
  from lookupInst_member [OF al(1)] have "al \<in> set (concat g)" "instId al = tempObj" by auto
  with freshId_fresh [of al g] have vT: "?v \<noteq> ?T" by simp
  from lookupInst_member [OF x(1)] have xin: "x \<in> set (concat g)" "instId x = li" by auto
  have R1: "rewriteReady ?g1 copyInst tempObj copyTake frontier"
    using R by (rule insertBefore_ready) simp_all
  have n1: "length (getUses ?g1 ?T) = length (getUses g ?T)"
    using src by (intro length_getUses_insertBefore) (simp add: getAllOperands_def)
  from insertCompensatingDestroys_ready [OF R1 subset_refl, of a li ?v] obtain g2 where
    g2: "insertCompensatingDestroys a ?g1 frontier li ?v = Inr g2"
        "rewriteReady g2 copyInst tempObj copyTake frontier"
        "set (concat ?g1) \<subseteq> set (concat g2)" by blast
  from length_getUses_destroys [OF g2(1) vT] n1
  have n2: "length (getUses g2 ?T) = length (getUses g ?T)" by simp
  from set_insertBefore [of g copyInst ?NL] g2(3)
  have sub: "set (concat g) \<subseteq> set (concat g2)" by blast
  from g2(2) have ids2: "uniqueIds g2" unfolding rewriteReady_def by simp
  let ?g' = "mapInsts (routeUses li ?v) g2"
  have res: "replaceLoadTake a g copyInst src frontier li td = Inr (?g', td @ [li])"
    using g2(1) by (simp add: replaceLoadTake_def Let_def drop_replace_routeUses)
  have R': "rewriteReady ?g' copyInst tempObj copyTake frontier"
  proof (rule rewriteReady_mapInsts [OF g2(2)])
    fix c s d i
    assume c: "instKind c = CopyAddrInst s d copyTake i" "s \<noteq> ?T"
    let ?c' = "updateOperands (map (\<lambda>u. if u = InstResult li then ?v else u)) c"
    have k': "instKind ?c' = CopyAddrInst (if s = InstResult li then ?v else s)
                               (if d = InstResult li then ?v else d) copyTake i"
      using updateOperands_copy(1) [OF c(1), of "map (\<lambda>u. if u = InstResult li then ?v else u)"]
      by simp
    then have "\<exists>s' d'. instKind ?c' = CopyAddrInst s' d' copyTake i \<and> s' \<noteq> ?T"
      using c(2) vT by auto
    moreover have "\<exists>s' d'. instKind (updateOperands (map (\<lambda>_. NullValue)) ?c') =
                     CopyAddrInst s' d' copyTake i \<and> s' \<noteq> ?T"
      using updateOperands_copy(1) [OF k', of "map (\<lambda>_. NullValue)"] by simp
    ultimately show "\<exists>s' d' i'. instKind (routeUses li ?v c) = CopyAddrInst s' d' copyTake i' \<and>
                       s' \<noteq> ?T"
      unfolding routeUses_def Let_def by auto
  next
    fix al' dyn' assume "instKind al' = AllocStackInst dyn'"
    then show "\<exists>dyn''. instKind (routeUses li ?v al') = AllocStackInst dyn''"
      unfolding routeUses_def Let_def by (simp add: updateOperands_alloc)
  next
    fix y assume "copyReadsTemp copyInst tempObj y"
    then show "copyReadsTemp copyInst tempObj (routeUses li ?v y)"
      using liT vT by (rule copyReadsTemp_routeUses)
  qed simp
  have less: "length (getUses ?g' ?T) < length (getUses g2 ?T)"
  proof (rule getUses_mapInsts_less)
    show "\<forall>i \<in> set (concat g2). length (usesIn ?T (routeUses li ?v i)) \<le> length (usesIn ?T i)"
    proof
      fix i
      show "length (usesIn ?T (routeUses li ?v i)) \<le> length (usesIn ?T i)"
        using liT vT by (intro usesIn_le) (auto simp: getAllOperands_routeUses)
    qed
    have "usesIn ?T (routeUses li ?v x) = []"
      using xin(2) by (intro usesIn_none) (auto simp: getAllOperands_routeUses)
    moreover from usesIn_operand [OF x(3)] have "0 < length (usesIn ?T x)" by simp
    ultimately have "length (usesIn ?T (routeUses li ?v x)) < length (usesIn ?T x)" by simp
    with xin(1) sub
    show "\<exists>i \<in> set (concat g2). length (usesIn ?T (routeUses li ?v i)) < length (usesIn ?T i)"
      by blast
  qed
  have looks: "\<forall>y \<in> set (concat g). lookupInst ?g' (instId y) = Some (routeUses li ?v y)"
  proof
    fix y assume "y \<in> set (concat g)"
    with sub have "y \<in> set (concat g2)" by blast
    with ids2 have "lookupInst g2 (instId y) = Some y" by (rule lookupInst_unique)
    moreover have "lookupInst ?g' (instId y) = map_option (routeUses li ?v) (lookupInst g2 (instId y))"
      by (rule lookupInst_mapInsts) simp
    ultimately show "lookupInst ?g' (instId y) = Some (routeUses li ?v y)" by simp
  qed
  from res R' less n2 looks show ?thesis by auto
qed

lemma lookupInst_mapInsts_other:
  assumes "\<And>x. instId (h x) = instId x" and "\<And>y. instId y = l \<Longrightarrow> h y = y"
  shows "lookupInst (mapInsts h g) l = lookupInst g l"
proof (cases "lookupInst g l")
  case None
  then show ?thesis using lookupInst_mapInsts [of h g l, OF assms(1)] by simp
next
  case (Some y)
  with lookupInst_member have "instId y = l" by blast
  with Some assms(2) show ?thesis using lookupInst_mapInsts [of h g l, OF assms(1)] by simp
qed

lemma lookupInst_setOperand_other:
  "l \<noteq> getUser use \<Longrightarrow> lookupInst (setOperand g use v) l = lookupInst g l"
  unfolding setOperand_def by (rule lookupInst_mapInsts_other) auto

lemma lookupInst_dropAllReferences_other:
  "l \<noteq> u \<Longrightarrow> lookupInst (dropAllReferences g u) l = lookupInst g l"
  unfolding dropAllReferences_def by (rule lookupInst_mapInsts_other) auto

lemma lookupInst_setKind_other:
  "l \<noteq> u \<Longrightarrow> lookupInst (setKind g u k) l = lookupInst g l"
  unfolding setKind_def by (rule lookupInst_mapInsts_other) auto

lemma replaceTempUse_default:
  assumes "getCopyAddr g copyInst = Some (s0, d0, t0, i0)"
    and "lookupInst g (getUser use) = Some x"
    and "\<not> (\<exists>a. instKind x = DestroyAddrInst a)" "\<not> (\<exists>a. instKind x = DeallocStackInst a)"
    and "\<not> (\<exists>s d t i. instKind x = CopyAddrInst s d t i)" "\<not> (\<exists>a q. instKind x = LoadInst a q)"
  shows "replaceTempUse asr g copyInst tempObj copySrc frontier use td =
           Inr (setOperand g use copySrc, td)"
  using assms by (cases "instKind x") (simp_all add: replaceTempUse_def)

lemma routeUses_load:
  "l \<noteq> li \<Longrightarrow> t \<noteq> li \<Longrightarrow>
   routeUses li v (Inst l (LoadInst (InstResult t) q) tdo) =
     Inst l (LoadInst (InstResult t) q) (map (\<lambda>u. if u = InstResult li then v else u) tdo)"
  by (simp add: routeUses_def updateOperands_def getAllOperands_def Let_def)

lemma replaceTempUse_ready:
  assumes R: "rewriteReady g copyInst tempObj copyTake frontier"
    and cs: "copySrc \<noteq> InstResult tempObj"
    and uses: "getUses g (InstResult tempObj) = use # rest"
  shows "\<exists>g' td'. replaceTempUse asr g copyInst tempObj copySrc frontier use td = Inr (g', td') \<and>
           rewriteReady g' copyInst tempObj copyTake frontier \<and>
           length (getUses g' (InstResult tempObj)) < length (getUses g (InstResult tempObj)) \<and>
           set td \<subseteq> set td' \<and>
           (\<not> copyTake \<longrightarrow>
              (\<forall>l. (\<exists>tdo. lookupInst g l = Some (Inst l (LoadInst (InstResult tempObj) LoadTake) tdo)) \<longrightarrow>
                   l \<in> set td' \<or>
                   (\<exists>tdo. lookupInst g' l =
                           Some (Inst l (LoadInst (InstResult tempObj) LoadTake) tdo))))"
proof -
  let ?T = "InstResult tempObj"
  let ?tracked = "\<lambda>h l. \<exists>tdo. lookupInst h l = Some (Inst l (LoadInst ?T LoadTake) tdo)"
  from uses have um: "use \<in> set (getUses g ?T)" by simp
  from R have ids: "uniqueIds g"
    and copy': "\<exists>src dest init. getCopyAddr g copyInst = Some (src, dest, copyTake, init) \<and>
                              src \<noteq> ?T"
    and alloc: "\<exists>tempInst. asAllocStack g ?T = Some tempInst"
    and P: "\<forall>x \<in> set (concat g). copyReadsTemp copyInst tempObj x"
    unfolding rewriteReady_def by auto
  from copy' obtain src dest init where
    copy: "getCopyAddr g copyInst = Some (src, dest, copyTake, init)" and src: "src \<noteq> ?T"
    by blast
  from use_in_function [OF ids um] obtain x where
    x: "lookupInst g (getUser use) = Some x" "x \<in> set (concat g)" "instId x = getUser use"
       "operandNumber use < length (getAllOperands x)"
       "getAllOperands x ! operandNumber use = ?T" by blast
  from x(4,5) have Tin: "?T \<in> set (getAllOperands x)" by (metis nth_mem)
  from alloc obtain al dyn where
    al: "lookupInst g tempObj = Some al" "instKind al = AllocStackInst dyn"
    unfolding asAllocStack_Some by blast
  have notTracked: "\<And>l. \<not> (\<exists>b. instKind x = LoadInst b LoadTake) \<Longrightarrow> ?tracked g l \<Longrightarrow>
                      l \<noteq> getUser use"
    using x(1) by auto
  have SO: "\<And>v. v \<noteq> ?T \<Longrightarrow>
              rewriteReady (setOperand g use v) copyInst tempObj copyTake frontier \<and>
              length (getUses (setOperand g use v) ?T) < length (getUses g ?T)"
    using setOperand_ready [OF R] setOperand_less [OF um] by blast
  have SOt: "\<And>v l. \<not> (\<exists>b. instKind x = LoadInst b LoadTake) \<Longrightarrow> ?tracked g l \<Longrightarrow>
               ?tracked (setOperand g use v) l"
    using notTracked lookupInst_setOperand_other by metis
  have DR: "rewriteReady (dropAllReferences g (instId x)) copyInst tempObj copyTake frontier \<and>
            length (getUses (dropAllReferences g (instId x)) ?T) < length (getUses g ?T)"
    using dropAllReferences_ready [OF R] dropAllReferences_less [OF x(2) refl Tin] by blast
  have DRt: "\<And>l. \<not> (\<exists>b. instKind x = LoadInst b LoadTake) \<Longrightarrow> ?tracked g l \<Longrightarrow>
               ?tracked (dropAllReferences g (instId x)) l"
    using notTracked lookupInst_dropAllReferences_other x(3) by metis
  consider (destroy) a where "instKind x = DestroyAddrInst a"
    | (dealloc) a where "instKind x = DeallocStackInst a"
    | (copy) s d t i where "instKind x = CopyAddrInst s d t i"
    | (load) a q where "instKind x = LoadInst a q"
    | (other) "\<not> (\<exists>a. instKind x = DestroyAddrInst a)" "\<not> (\<exists>a. instKind x = DeallocStackInst a)"
              "\<not> (\<exists>s d t i. instKind x = CopyAddrInst s d t i)"
              "\<not> (\<exists>a q. instKind x = LoadInst a q)"
    by blast
  then show ?thesis
  proof cases
    case destroy
    then have nl: "\<not> (\<exists>b. instKind x = LoadInst b LoadTake)" by simp
    show ?thesis
    proof (cases copyTake)
      case True
      have "replaceTempUse asr g copyInst tempObj copySrc frontier use td =
              Inr (setOperand g use copySrc, td)"
        using copy x(1) destroy True by (simp add: replaceTempUse_def)
      with SO [OF cs] True show ?thesis by auto
    next
      case False
      have "replaceTempUse asr g copyInst tempObj copySrc frontier use td =
              Inr (dropAllReferences g (instId x), td @ [instId x])"
        using copy x(1) destroy False by (simp add: replaceTempUse_def)
      with DR DRt [OF nl] show ?thesis by auto
    qed
  next
    case dealloc
    then have nl: "\<not> (\<exists>b. instKind x = LoadInst b LoadTake)" by simp
    have "replaceTempUse asr g copyInst tempObj copySrc frontier use td =
            Inr (dropAllReferences g (instId x), td @ [instId x])"
      using copy x(1) dealloc by (simp add: replaceTempUse_def)
    with DR DRt [OF nl] show ?thesis by auto
  next
    case other
    then have nl: "\<not> (\<exists>b. instKind x = LoadInst b LoadTake)" by blast
    have "replaceTempUse asr g copyInst tempObj copySrc frontier use td =
            Inr (setOperand g use copySrc, td)"
      using copy x(1) other by (rule replaceTempUse_default)
    with SO [OF cs] SOt [OF nl] show ?thesis by auto
  next
    case (load a q)
    show ?thesis
    proof (cases "q \<noteq> LoadTake \<or> copyTake")
      case True
      have res: "replaceTempUse asr g copyInst tempObj copySrc frontier use td =
              Inr (setOperand g use src, td)"
        using copy x(1) load True by (auto simp: replaceTempUse_def)
      show ?thesis
      proof (cases copyTake)
        case True
        with res SO [OF src] show ?thesis by auto
      next
        case False
        with True load have nl: "\<not> (\<exists>b. instKind x = LoadInst b LoadTake)" by simp
        with res SO [OF src] SOt [OF nl] show ?thesis by auto
      qed
    next
      case False
      then have q: "q = LoadTake" and nt: "\<not> copyTake" by auto
      from replaceLoadTake_ready [OF R copy x(1) load Tin, of asr td] x(3) obtain g' where
        g': "replaceLoadTake asr g copyInst src frontier (instId x) td = Inr (g', td @ [instId x])"
            "rewriteReady g' copyInst tempObj copyTake frontier"
            "length (getUses g' ?T) < length (getUses g ?T)"
            "\<forall>y \<in> set (concat g).
               lookupInst g' (instId y) = Some (routeUses (instId x) (InstResult (freshId g)) y)"
        by auto
      have res: "replaceTempUse asr g copyInst tempObj copySrc frontier use td =
                   Inr (g', td @ [instId x])"
        using copy x(1) load q nt g'(1) by (simp add: replaceTempUse_def)
      from alloc_is_no_load [OF al x(1) load] x(3) have xT: "tempObj \<noteq> instId x" by simp
      have tr: "\<forall>l. ?tracked g l \<longrightarrow> l \<in> set (td @ [instId x]) \<or> ?tracked g' l"
      proof (intro allI impI)
        fix l assume "?tracked g l"
        then obtain tdo where l: "lookupInst g l = Some (Inst l (LoadInst ?T LoadTake) tdo)"
          by blast
        show "l \<in> set (td @ [instId x]) \<or> ?tracked g' l"
        proof (cases "l = instId x")
          case True
          then show ?thesis by simp
        next
          case False
          from lookupInst_member [OF l] g'(4)
          have "lookupInst g' l =
                  Some (routeUses (instId x) (InstResult (freshId g))
                          (Inst l (LoadInst ?T LoadTake) tdo))" by force
          with routeUses_load [OF False xT] show ?thesis by simp
        qed
      qed
      from res g'(2,3) tr show ?thesis by auto
    qed
  next
    case (copy s d t i)
    then have nl: "\<not> (\<exists>b. instKind x = LoadInst b LoadTake)" by simp
    show ?thesis
    proof (cases "instId x = copyInst")
      case True
      have "replaceTempUse asr g copyInst tempObj copySrc frontier use td =
              Inr (setOperand g use copySrc, td)"
        using \<open>getCopyAddr g copyInst = Some (src, dest, copyTake, init)\<close> x(1) copy True
        by (simp add: replaceTempUse_def)
      with SO [OF cs] SOt [OF nl] show ?thesis by auto
    next
      case False
      from P x(2) have "copyReadsTemp copyInst tempObj x" by blast
      with copy False Tin have s: "s = ?T" by (simp add: copyReadsTemp_def)
      show ?thesis
      proof (cases "t \<and> \<not> copyTake")
        case nd: False
        have "replaceTempUse asr g copyInst tempObj copySrc frontier use td =
                Inr (setOperand g use copySrc, td)"
          using \<open>getCopyAddr g copyInst = Some (src, dest, copyTake, init)\<close> x(1) copy False s nd
          by (auto simp: replaceTempUse_def)
        with SO [OF cs] SOt [OF nl] show ?thesis by auto
      next
        case True
        let ?g1 = "setKind g (instId x) (CopyAddrInst s d False i)"
        have ne: "instId x \<noteq> copyInst" by (rule False)
        have x': "lookupInst g (instId x) = Some x" using x(1,3) by simp
        note sk = setKind_ready [OF R x' copy ne]
        have res: "replaceTempUse asr g copyInst tempObj copySrc frontier use td =
                Inr (setOperand ?g1 use copySrc, td)"
          using \<open>getCopyAddr g copyInst = Some (src, dest, copyTake, init)\<close> x(1) copy False s True
          by (auto simp: replaceTempUse_def)
        have um1: "use \<in> set (getUses ?g1 ?T)" using um sk(2) [of ?T] by simp
        have r1: "rewriteReady (setOperand ?g1 use copySrc) copyInst tempObj copyTake frontier"
          using sk(1) cs by (rule setOperand_ready)
        have l1: "length (getUses (setOperand ?g1 use copySrc) ?T) < length (getUses g ?T)"
          using setOperand_less [OF um1 cs] sk(2) [of ?T] by simp
        have tr: "\<forall>l. ?tracked g l \<longrightarrow> ?tracked (setOperand ?g1 use copySrc) l"
        proof (intro allI impI)
          fix l assume l: "?tracked g l"
          from notTracked [OF nl l] have "l \<noteq> getUser use" .
          then have "lookupInst (setOperand ?g1 use copySrc) l = lookupInst g l"
            using x(3) by (simp add: lookupInst_setOperand_other lookupInst_setKind_other)
          with l show "?tracked (setOperand ?g1 use copySrc) l" by simp
        qed
        from res r1 l1 tr show ?thesis by auto
      qed
    qed
  qed
qed

subsection \<open>The loop ends and the load is deleted\<close>

lemma tracked_load_is_use:
  assumes "lookupInst g l = Some (Inst l (LoadInst t LoadTake) tdo)"
  shows "getUses g t \<noteq> []"
proof -
  from lookupInst_member [OF assms]
  have "Inst l (LoadInst t LoadTake) tdo \<in> set (concat g)" by simp
  moreover have "t \<in> set (getAllOperands (Inst l (LoadInst t LoadTake) tdo))"
    by (simp add: getAllOperands_def)
  ultimately show ?thesis unfolding getUses_none_iff by blast
qed

lemma replaceTempUses_ready:
  "rewriteReady g copyInst tempObj copyTake frontier \<Longrightarrow> copySrc \<noteq> InstResult tempObj \<Longrightarrow>
   length (getUses g (InstResult tempObj)) \<le> fuel \<Longrightarrow>
   \<exists>g' final. replaceTempUses fuel asr g copyInst tempObj copySrc frontier td = Inr (g', final) \<and>
      set td \<subseteq> set final \<and>
      (\<not> copyTake \<longrightarrow>
         (\<forall>l. (\<exists>tdo. lookupInst g l = Some (Inst l (LoadInst (InstResult tempObj) LoadTake) tdo)) \<longrightarrow>
              l \<in> set final))"
proof (induction fuel arbitrary: g td)
  case 0
  then have e: "getUses g (InstResult tempObj) = []" by simp
  then have "replaceTempUses 0 asr g copyInst tempObj copySrc frontier td = Inr (g, td)" by simp
  with e tracked_load_is_use [of g _ "InstResult tempObj"] show ?case by auto
next
  case (Suc fuel)
  show ?case
  proof (cases "getUses g (InstResult tempObj)")
    case Nil
    then have "replaceTempUses (Suc fuel) asr g copyInst tempObj copySrc frontier td =
                 Inr (g, td)" by simp
    with Nil tracked_load_is_use [of g _ "InstResult tempObj"] show ?thesis by auto
  next
    case (Cons use rest)
    from replaceTempUse_ready [OF Suc.prems(1,2) Cons, of asr td] obtain g1 td1 where
      t: "replaceTempUse asr g copyInst tempObj copySrc frontier use td = Inr (g1, td1)"
         "rewriteReady g1 copyInst tempObj copyTake frontier"
         "length (getUses g1 (InstResult tempObj)) < length (getUses g (InstResult tempObj))"
         "set td \<subseteq> set td1"
         "\<not> copyTake \<longrightarrow>
            (\<forall>l. (\<exists>tdo. lookupInst g l =
                          Some (Inst l (LoadInst (InstResult tempObj) LoadTake) tdo)) \<longrightarrow>
                 l \<in> set td1 \<or>
                 (\<exists>tdo. lookupInst g1 l =
                         Some (Inst l (LoadInst (InstResult tempObj) LoadTake) tdo)))"
      by blast
    from t(3) Suc.prems(3) have "length (getUses g1 (InstResult tempObj)) \<le> fuel" by simp
    from Suc.IH [OF t(2) Suc.prems(2) this, of td1] obtain g' final where
      r: "replaceTempUses fuel asr g1 copyInst tempObj copySrc frontier td1 = Inr (g', final)"
         "set td1 \<subseteq> set final"
         "\<not> copyTake \<longrightarrow>
            (\<forall>l. (\<exists>tdo. lookupInst g1 l =
                          Some (Inst l (LoadInst (InstResult tempObj) LoadTake) tdo)) \<longrightarrow>
                 l \<in> set final)"
      by blast
    have "replaceTempUses (Suc fuel) asr g copyInst tempObj copySrc frontier td = Inr (g', final)"
      using Cons t(1) r(1) by simp
    moreover have "set td \<subseteq> set final" using t(4) r(2) by blast
    moreover have "\<not> copyTake \<longrightarrow>
         (\<forall>l. (\<exists>tdo. lookupInst g l =
                       Some (Inst l (LoadInst (InstResult tempObj) LoadTake) tdo)) \<longrightarrow>
              l \<in> set final)"
      using t(5) r(2,3) by blast
    ultimately show ?thesis by blast
  qed
qed

lemma collectTempUses_copy_dest:
  "collectTempUses fuel ext f initInst tempObj srcAddr uses L = Inr (True, L') \<Longrightarrow>
   u \<in> set uses \<Longrightarrow> lookupInst f (getUser u) = Some x \<Longrightarrow>
   instKind x = CopyAddrInst s d t i \<Longrightarrow> instId x \<noteq> initInst \<Longrightarrow>
   d \<noteq> InstResult tempObj"
proof (induction uses arbitrary: L)
  case Nil
  then show ?case by simp
next
  case (Cons u0 rest)
  from Cons.prems(1) obtain x0 where x0: "lookupInst f (getUser u0) = Some x0"
    by (auto split: option.splits)
  have xk: "\<not> isDestroyAddr x" "\<not> isDeallocStack x" "\<not> isLoadTake x"
    using Cons.prems(4) by (simp_all add: isDestroyAddr_def isDeallocStack_def isLoadTake_def)
  show ?case
  proof (cases "instId x0 = initInst \<or> isDestroyAddr x0 \<or> isDeallocStack x0 \<or> isLoadTake x0")
    case True
    with Cons.prems(1) x0
    have rest: "collectTempUses fuel ext f initInst tempObj srcAddr rest L = Inr (True, L')"
      by (auto split: if_splits)
    have "u \<noteq> u0"
    proof
      assume "u = u0"
      with Cons.prems(3) x0 have "x = x0" by simp
      with True Cons.prems(5) xk show False by simp
    qed
    with Cons.prems(2) have "u \<in> set rest" by simp
    from Cons.IH [OF rest this Cons.prems(3,4,5)] show ?thesis .
  next
    case False
    with Cons.prems(1) x0 obtain ok L1 where
      cl: "collectLoads fuel ext f u0 x0 tempObj srcAddr L = Inr (ok, L1)"
      by (auto split: sum.splits)
    with Cons.prems(1) x0 False have ok: "ok"
      and rest: "collectTempUses fuel ext f initInst tempObj srcAddr rest L1 = Inr (True, L')"
      by (auto split: if_splits)
    show ?thesis
    proof (cases "u = u0")
      case True
      with Cons.prems(3) x0 have "x = x0" by simp
      with cl ok Cons.prems(4) show ?thesis by (auto split: if_splits)
    next
      case False
      with Cons.prems(2) have "u \<in> set rest" by simp
      from Cons.IH [OF rest this Cons.prems(3,4,5)] show ?thesis .
    qed
  qed
qed

lemma operand_is_use:
  assumes "x \<in> set (concat f)" "v \<in> set (getAllOperands x)"
  shows "\<exists>u \<in> set (getUses f v). getUser u = instId x"
proof -
  from usesIn_operand [OF assms(2)] obtain u where u: "u \<in> set (usesIn v x)"
    by (cases "usesIn v x") auto
  with assms(1) have "u \<in> set (getUses f v)" unfolding getUses_def by auto
  with usesIn_memberD [OF u] show ?thesis by blast
qed

lemma frontierAtDestroys_preds:
  "frontierAtDestroys asr f tempObj frontier = Inr True \<Longrightarrow>
   \<forall>F \<in> set frontier. prevInst f F \<noteq> None"
proof (induction frontier)
  case Nil
  then show ?case by simp
next
  case (Cons F rest)
  from Cons.prems obtain p where p: "prevInst f F = Some p" by (auto split: option.splits)
  with Cons.prems have "frontierAtDestroys asr f tempObj rest = Inr True"
    by (cases "instKind p") (auto split: if_splits)
  with Cons.IH p show ?case by simp
qed

lemma checkTempObjectDestroy_preds:
  assumes "checkTempObjectDestroy ext f tempObj copyInst = Inr (True, frontier)"
  shows "\<forall>F \<in> set frontier. prevInst f F \<noteq> None"
proof -
  from assms obtain src dest copyTake init where
    c: "getCopyAddr f copyInst = Some (src, dest, copyTake, init)"
    unfolding checkTempObjectDestroy_def by (auto split: option.splits)
  show ?thesis
  proof (cases copyTake)
    case True
    with assms c have "frontier = []" by (simp add: checkTempObjectDestroy_def)
    then show ?thesis by simp
  next
    case False
    with assms c have "frontierAtDestroys (assertionsEnabled ext) f tempObj frontier = Inr True"
      by (auto simp: checkTempObjectDestroy_def split: sum.splits option.splits)
    then show ?thesis by (rule frontierAtDestroys_preds)
  qed
qed

lemma tryOptimizeCopyIntoTemp_rewrites:
  assumes ids: "uniqueIds f"
    and copy: "getCopyAddr f copyInst = Some (src, dest, copyTake, True)"
    and temp: "asAllocStack f dest = Some tempInst"
    and srcs: "src \<noteq> InstResult (instId tempInst)"
              "stripAccessMarkers ext f src \<noteq> InstResult (instId tempInst)"
    and typedep: "\<forall>x \<in> set (concat f). InstResult (instId tempInst) \<notin> set (typeDependentOperands x)"
    and classified: "collectTempUses fuel ext f copyInst (instId tempInst)
                       (stripAccessMarkers ext f src)
                       (getUses f (InstResult (instId tempInst))) {} = Inr (True, loadInsts)"
    and kept: "checkNoSourceModification ext f copyInst (stripAccessMarkers ext f src) loadInsts"
    and destroyed: "checkTempObjectDestroy ext f (instId tempInst) copyInst = Inr (True, frontier)"
    and fuel: "length (getUses f (InstResult (instId tempInst))) \<le> fuel"
  shows "\<exists>f' toDelete.
           replaceTempUses fuel (assertionsEnabled ext) f copyInst (instId tempInst)
             (stripAccessMarkers ext f src) frontier [] = Inr (f', toDelete) \<and>
           tryOptimizeCopyIntoTemp fuel ext f copyInst =
             Inr (eraseFromParent (eraseAll f' toDelete) (instId tempInst), True) \<and>
           (\<not> copyTake \<longrightarrow>
              (\<forall>li \<in> set (concat f).
                 instKind li = LoadInst (InstResult (instId tempInst)) LoadTake \<longrightarrow>
                 instId li \<in> set toDelete))"
proof -
  let ?t = "instId tempInst"
  let ?T = "InstResult ?t"
  have dest: "dest = ?T" using temp by (rule asAllocStack_dest)
  have r3: "\<exists>tempInst. asAllocStack f ?T = Some tempInst" using temp dest by auto
  have r2: "\<exists>src dest init. getCopyAddr f copyInst = Some (src, dest, copyTake, init) \<and> src \<noteq> ?T"
    using copy srcs(1) by blast
  have r4: "\<forall>F \<in> set frontier. prevInst f F \<noteq> None"
    using destroyed by (rule checkTempObjectDestroy_preds)
  have r5: "\<forall>x \<in> set (concat f). copyReadsTemp copyInst ?t x"
  proof
    fix x assume x: "x \<in> set (concat f)"
    show "copyReadsTemp copyInst ?t x"
    proof (cases "\<exists>s d t i. instKind x = CopyAddrInst s d t i")
      case False
      then show ?thesis by (rule copyReadsTemp_not_copy)
    next
      case True
      then obtain s d t i where k: "instKind x = CopyAddrInst s d t i" by blast
      show ?thesis
      proof (cases "instId x = copyInst \<or> ?T \<notin> set (getAllOperands x)")
        case True
        with k show ?thesis by (auto simp: copyReadsTemp_def)
      next
        case False
        then have ne: "instId x \<noteq> copyInst" and Tin: "?T \<in> set (getAllOperands x)" by auto
        from operand_is_use [OF x Tin] obtain u where
          u: "u \<in> set (getUses f ?T)" "getUser u = instId x" by blast
        from lookupInst_unique [OF ids x] u(2) have "lookupInst f (getUser u) = Some x" by simp
        from collectTempUses_copy_dest [OF classified u(1) this k ne] have d: "d \<noteq> ?T" .
        from typedep x have td: "?T \<notin> set (typeDependentOperands x)" by blast
        from Tin k d td have "s = ?T" by (simp add: getAllOperands_def)
        with k d td show ?thesis by (simp add: copyReadsTemp_def)
      qed
    qed
  qed
  from ids r2 r3 r4 r5 have R: "rewriteReady f copyInst ?t copyTake frontier"
    unfolding rewriteReady_def by blast
  from replaceTempUses_ready [OF R srcs(2) fuel, of "assertionsEnabled ext" "[]"]
  obtain f' final where
    l: "replaceTempUses fuel (assertionsEnabled ext) f copyInst ?t
          (stripAccessMarkers ext f src) frontier [] = Inr (f', final)"
       "\<not> copyTake \<longrightarrow>
          (\<forall>l. (\<exists>tdo. lookupInst f l = Some (Inst l (LoadInst ?T LoadTake) tdo)) \<longrightarrow>
               l \<in> set final)"
    by blast
  have res: "tryOptimizeCopyIntoTemp fuel ext f copyInst =
               Inr (eraseFromParent (eraseAll f' final) ?t, True)"
    using copy temp srcs(2) classified kept destroyed l(1)
    by (simp add: tryOptimizeCopyIntoTemp_def Let_def)
  have del: "\<not> copyTake \<longrightarrow>
              (\<forall>li \<in> set (concat f). instKind li = LoadInst ?T LoadTake \<longrightarrow> instId li \<in> set final)"
  proof (intro impI ballI)
    fix li assume nt: "\<not> copyTake" and li: "li \<in> set (concat f)"
      and k: "instKind li = LoadInst ?T LoadTake"
    from lookupInst_unique [OF ids li] have "lookupInst f (instId li) = Some li" .
    moreover from k have "li = Inst (instId li) (LoadInst ?T LoadTake) (typeDependentOperands li)"
      by (cases li) simp
    ultimately have "\<exists>tdo. lookupInst f (instId li) =
                             Some (Inst (instId li) (LoadInst ?T LoadTake) tdo)" by metis
    with l(2) nt show "instId li \<in> set final" by blast
  qed
  from l(1) res del show ?thesis by blast
qed

subsection \<open>The load case\<close>

text \<open>
  C4. The \<^verbatim>\<open>load\<close> case of the rewrite loop of \<^verbatim>\<open>tryOptimizeCopyIntoTemp\<close>, for a
  \<^verbatim>\<open>load [take]\<close> of the temporary. When the copy takes its source, the turn only
  redirects the load to the source of the copy. Otherwise the turn returns, for
  every frontier whose instructions each have an instruction before them other than
  the copy and outside the frontier: a \<^verbatim>\<open>load [copy]\<close> of the source stands immediately
  before the copy; every instruction of the function has its uses of the load
  routed to the new value; at every frontier instruction but the one that follows
  the load itself, a \<^verbatim>\<open>destroy_value\<close> of the new value stands immediately before
  the instruction that preceded the frontier instruction, which still stands
  immediately before the frontier instruction; the load is queued for deletion.
  And when the checks of the pass have accepted the copy and the loop is given
  a turn for every use of the temporary, \<^verbatim>\<open>tryOptimizeCopyIntoTemp\<close> returns a
  function that holds no \<^verbatim>\<open>load [take]\<close> of the temporary any more.
\<close>

theorem load_take_rewrite:
  "(getCopyAddr g copyInst = Some (copyInstSrc, copyInstDest, True, copyInit) \<and>
    lookupInst g (getUser use) = Some li \<and> instKind li = LoadInst a LoadTake \<longrightarrow>
      replaceTempUse assertions g copyInst tempObj copySrc frontier use toDelete =
        Inr (setOperand g use copyInstSrc, toDelete) \<and>
      (operandNumber use = 0 \<longrightarrow>
         lookupInst (setOperand g use copyInstSrc) (getUser use) =
           Some (Inst (getUser use) (LoadInst copyInstSrc LoadTake) (typeDependentOperands li)))) \<and>
   (uniqueIds g \<and>
    getCopyAddr g copyInst = Some (copyInstSrc, copyInstDest, False, copyInit) \<and>
    lookupInst g (getUser use) = Some li \<and> instKind li = LoadInst a LoadTake \<and>
    distinct frontier \<and> copyInst \<notin> set frontier \<and>
    (\<forall>frontierInst \<in> set frontier.
       \<exists>p. prevInst g frontierInst = Some p \<and> instId p \<noteq> copyInst) \<and>
    (\<forall>frontierInst \<in> set frontier.
       \<forall>p. prevInst g frontierInst = Some p \<longrightarrow> instId p \<notin> set frontier) \<longrightarrow>
      (\<exists>g'. replaceTempUse assertions g copyInst tempObj copySrc frontier use toDelete =
               Inr (g', toDelete @ [instId li]) \<and>
            uniqueIds g' \<and>
            prevInst g' copyInst =
              Some (routeUses (instId li) (InstResult (freshId g))
                      (Inst (freshId g) (LoadInst copyInstSrc LoadCopy) [])) \<and>
            (\<forall>x \<in> set (concat g).
               lookupInst g' (instId x) = Some (routeUses (instId li) (InstResult (freshId g)) x)) \<and>
            (\<forall>frontierInst \<in> set frontier. \<forall>p. prevInst g frontierInst = Some p \<longrightarrow>
               prevInst g' frontierInst = Some (routeUses (instId li) (InstResult (freshId g)) p) \<and>
               (if instId p = instId li
                then prevInst g' (instId li) =
                       map_option (routeUses (instId li) (InstResult (freshId g)))
                         (prevInst g (instId li))
                else \<exists>d. d \<notin> instId ` set (concat g) \<and>
                         prevInst g' (instId p) =
                           Some (Inst d (DestroyValueInst (InstResult (freshId g))) []))))) \<and>
   (uniqueIds f \<and>
    getCopyAddr f copyInst = Some (src, dest, False, True) \<and>
    asAllocStack f dest = Some tempInst \<and>
    src \<noteq> InstResult (instId tempInst) \<and>
    stripAccessMarkers ext f src \<noteq> InstResult (instId tempInst) \<and>
    (\<forall>x \<in> set (concat f). InstResult (instId tempInst) \<notin> set (typeDependentOperands x)) \<and>
    collectTempUses fuel ext f copyInst (instId tempInst) (stripAccessMarkers ext f src)
      (getUses f (InstResult (instId tempInst))) {} = Inr (True, loadInsts) \<and>
    checkNoSourceModification ext f copyInst (stripAccessMarkers ext f src) loadInsts \<and>
    checkTempObjectDestroy ext f (instId tempInst) copyInst = Inr (True, tempAddressFrontier) \<and>
    length (getUses f (InstResult (instId tempInst))) \<le> fuel \<longrightarrow>
      (\<exists>f'. tryOptimizeCopyIntoTemp fuel ext f copyInst = Inr (f', True) \<and>
            (\<forall>x \<in> set (concat f).
               instKind x = LoadInst (InstResult (instId tempInst)) LoadTake \<longrightarrow>
               lookupInst f' (instId x) = None)))"
proof (intro conjI impI)
  assume "getCopyAddr g copyInst = Some (copyInstSrc, copyInstDest, True, copyInit) \<and>
    lookupInst g (getUser use) = Some li \<and> instKind li = LoadInst a LoadTake"
  then show "replaceTempUse assertions g copyInst tempObj copySrc frontier use toDelete =
        Inr (setOperand g use copyInstSrc, toDelete)"
    by (simp add: replaceTempUse_def)
next
  assume "getCopyAddr g copyInst = Some (copyInstSrc, copyInstDest, True, copyInit) \<and>
    lookupInst g (getUser use) = Some li \<and> instKind li = LoadInst a LoadTake"
    and "operandNumber use = 0"
  then show "lookupInst (setOperand g use copyInstSrc) (getUser use) =
           Some (Inst (getUser use) (LoadInst copyInstSrc LoadTake) (typeDependentOperands li))"
    by (intro lookupInst_setOperand_load) auto
next
  assume h: "uniqueIds g \<and>
    getCopyAddr g copyInst = Some (copyInstSrc, copyInstDest, False, copyInit) \<and>
    lookupInst g (getUser use) = Some li \<and> instKind li = LoadInst a LoadTake \<and>
    distinct frontier \<and> copyInst \<notin> set frontier \<and>
    (\<forall>frontierInst \<in> set frontier.
       \<exists>p. prevInst g frontierInst = Some p \<and> instId p \<noteq> copyInst) \<and>
    (\<forall>frontierInst \<in> set frontier.
       \<forall>p. prevInst g frontierInst = Some p \<longrightarrow> instId p \<notin> set frontier)"
  then have a: "uniqueIds g"
    "getCopyAddr g copyInst = Some (copyInstSrc, copyInstDest, False, copyInit)"
    "lookupInst g (getUser use) = Some li" "instKind li = LoadInst a LoadTake"
    "distinct frontier" "copyInst \<notin> set frontier"
    "\<forall>F \<in> set frontier. \<exists>p. prevInst g F = Some p \<and> instId p \<noteq> copyInst"
    "\<forall>F \<in> set frontier. \<forall>p. prevInst g F = Some p \<longrightarrow> instId p \<notin> set frontier"
    by blast+
  show "\<exists>g'. replaceTempUse assertions g copyInst tempObj copySrc frontier use toDelete =
               Inr (g', toDelete @ [instId li]) \<and>
            uniqueIds g' \<and>
            prevInst g' copyInst =
              Some (routeUses (instId li) (InstResult (freshId g))
                      (Inst (freshId g) (LoadInst copyInstSrc LoadCopy) [])) \<and>
            (\<forall>x \<in> set (concat g).
               lookupInst g' (instId x) = Some (routeUses (instId li) (InstResult (freshId g)) x)) \<and>
            (\<forall>frontierInst \<in> set frontier. \<forall>p. prevInst g frontierInst = Some p \<longrightarrow>
               prevInst g' frontierInst = Some (routeUses (instId li) (InstResult (freshId g)) p) \<and>
               (if instId p = instId li
                then prevInst g' (instId li) =
                       map_option (routeUses (instId li) (InstResult (freshId g)))
                         (prevInst g (instId li))
                else \<exists>d. d \<notin> instId ` set (concat g) \<and>
                         prevInst g' (instId p) =
                           Some (Inst d (DestroyValueInst (InstResult (freshId g))) [])))"
    by (rule replaceLoadTake_turn [OF a])
next
  assume h: "uniqueIds f \<and>
    getCopyAddr f copyInst = Some (src, dest, False, True) \<and>
    asAllocStack f dest = Some tempInst \<and>
    src \<noteq> InstResult (instId tempInst) \<and>
    stripAccessMarkers ext f src \<noteq> InstResult (instId tempInst) \<and>
    (\<forall>x \<in> set (concat f). InstResult (instId tempInst) \<notin> set (typeDependentOperands x)) \<and>
    collectTempUses fuel ext f copyInst (instId tempInst) (stripAccessMarkers ext f src)
      (getUses f (InstResult (instId tempInst))) {} = Inr (True, loadInsts) \<and>
    checkNoSourceModification ext f copyInst (stripAccessMarkers ext f src) loadInsts \<and>
    checkTempObjectDestroy ext f (instId tempInst) copyInst = Inr (True, tempAddressFrontier) \<and>
    length (getUses f (InstResult (instId tempInst))) \<le> fuel"
  then have a: "uniqueIds f" "getCopyAddr f copyInst = Some (src, dest, False, True)"
    "asAllocStack f dest = Some tempInst"
    "src \<noteq> InstResult (instId tempInst)"
    "stripAccessMarkers ext f src \<noteq> InstResult (instId tempInst)"
    "\<forall>x \<in> set (concat f). InstResult (instId tempInst) \<notin> set (typeDependentOperands x)"
    "collectTempUses fuel ext f copyInst (instId tempInst) (stripAccessMarkers ext f src)
      (getUses f (InstResult (instId tempInst))) {} = Inr (True, loadInsts)"
    "checkNoSourceModification ext f copyInst (stripAccessMarkers ext f src) loadInsts"
    "checkTempObjectDestroy ext f (instId tempInst) copyInst = Inr (True, tempAddressFrontier)"
    "length (getUses f (InstResult (instId tempInst))) \<le> fuel"
    by blast+
  from tryOptimizeCopyIntoTemp_rewrites [OF a] obtain f' toDelete where
    r: "tryOptimizeCopyIntoTemp fuel ext f copyInst =
          Inr (eraseFromParent (eraseAll f' toDelete) (instId tempInst), True)"
       "\<forall>li \<in> set (concat f).
          instKind li = LoadInst (InstResult (instId tempInst)) LoadTake \<longrightarrow>
          instId li \<in> set toDelete"
    by auto
  have "\<forall>x \<in> set (concat f).
          instKind x = LoadInst (InstResult (instId tempInst)) LoadTake \<longrightarrow>
          lookupInst (eraseFromParent (eraseAll f' toDelete) (instId tempInst)) (instId x) = None"
    using r(2) lookupInst_eraseAll by blast
  with r(1) show "\<exists>f'. tryOptimizeCopyIntoTemp fuel ext f copyInst = Inr (f', True) \<and>
            (\<forall>x \<in> set (concat f).
               instKind x = LoadInst (InstResult (instId tempInst)) LoadTake \<longrightarrow>
               lookupInst f' (instId x) = None)"
    by blast
qed

theorem load_take_rewrite_witness:
  "replaceTempUse True takenCopy 1 0 (FunctionArgument 0) [] (Operand 2 0) [] =
     Inr (setOperand takenCopy (Operand 2 0) (FunctionArgument 0), []) \<and>
   lookupInst (setOperand takenCopy (Operand 2 0) (FunctionArgument 0)) 2 =
     Some (Inst 2 (LoadInst (FunctionArgument 0) LoadTake) []) \<and>
   replaceTempUse True takenOnOnePathRedirected 1 0 (FunctionArgument 0) [4, 7] (Operand 3 0) [] =
     Inr (takenOnOnePathReleased, [3]) \<and>
   prevInst takenOnOnePathReleased 1 = Some (Inst 9 (LoadInst (FunctionArgument 0) LoadCopy) []) \<and>
   lookupInst takenOnOnePathReleased 5 = Some (Inst 5 (OtherInst [InstResult 9]) []) \<and>
   prevInst takenOnOnePathReleased 4 = Some (Inst 3 (LoadInst NullValue LoadTake) []) \<and>
   prevInst takenOnOnePathReleased 3 = None \<and>
   prevInst takenOnOnePathReleased 7 = Some (Inst 6 (DestroyAddrInst (InstResult 0)) []) \<and>
   prevInst takenOnOnePathReleased 6 = Some (Inst 10 (DestroyValueInst (InstResult 9)) []) \<and>
   tryOptimizeCopyIntoTemp 20 twoPathExternals takenOnOnePath 1 =
     Inr (takenOnOnePathOptimized, True) \<and>
   lookupInst takenOnOnePathOptimized 3 = None"
proof -
  let ?taken = "Inst 2 (LoadInst (InstResult 0) LoadTake) []"
  have t: "getCopyAddr takenCopy 1 = Some (FunctionArgument 0, InstResult 0, True, True) \<and>
           lookupInst takenCopy (getUser (Operand 2 0)) = Some ?taken \<and>
           instKind ?taken = LoadInst (InstResult 0) LoadTake"
    by code_simp
  have t0: "operandNumber (Operand 2 0) = 0" "getUser (Operand 2 0) = 2"
           "typeDependentOperands ?taken = []"
    by simp_all
  from load_take_rewrite [THEN conjunct1, THEN mp, OF t, of True 0 "FunctionArgument 0" "[]" "[]"]
  have c1: "replaceTempUse True takenCopy 1 0 (FunctionArgument 0) [] (Operand 2 0) [] =
              Inr (setOperand takenCopy (Operand 2 0) (FunctionArgument 0), []) \<and>
            lookupInst (setOperand takenCopy (Operand 2 0) (FunctionArgument 0)) 2 =
              Some (Inst 2 (LoadInst (FunctionArgument 0) LoadTake) [])"
    by (simp only: t0 simp_thms)
  let ?g = takenOnOnePathRedirected
  let ?li = "Inst 3 (LoadInst (InstResult 0) LoadTake) []"
  have p4: "prevInst ?g 4 = Some ?li" by code_simp
  have p7: "prevInst ?g 7 = Some (Inst 6 (DestroyAddrInst (InstResult 0)) [])" by code_simp
  have n1: "uniqueIds ?g" by code_simp
  have n2: "getCopyAddr ?g 1 = Some (FunctionArgument 0, FunctionArgument 0, False, True)"
    by code_simp
  have n3: "lookupInst ?g (getUser (Operand 3 0)) = Some ?li" by code_simp
  have n4: "instKind ?li = LoadInst (InstResult 0) LoadTake" by simp
  have n5: "distinct [4::nat, 7]" "(1::nat) \<notin> set [4, 7]" by simp_all
  have n6: "\<forall>frontierInst \<in> set [4::nat, 7].
              \<exists>p. prevInst ?g frontierInst = Some p \<and> instId p \<noteq> 1"
    by (simp add: p4 p7)
  have n7: "\<forall>frontierInst \<in> set [4::nat, 7].
              \<forall>p. prevInst ?g frontierInst = Some p \<longrightarrow> instId p \<notin> set [4, 7]"
    by (simp add: p4 p7)
  have h: "uniqueIds ?g \<and>
    getCopyAddr ?g 1 = Some (FunctionArgument 0, FunctionArgument 0, False, True) \<and>
    lookupInst ?g (getUser (Operand 3 0)) = Some ?li \<and>
    instKind ?li = LoadInst (InstResult 0) LoadTake \<and>
    distinct [4::nat, 7] \<and> 1 \<notin> set [4::nat, 7] \<and>
    (\<forall>frontierInst \<in> set [4::nat, 7].
       \<exists>p. prevInst ?g frontierInst = Some p \<and> instId p \<noteq> 1) \<and>
    (\<forall>frontierInst \<in> set [4::nat, 7].
       \<forall>p. prevInst ?g frontierInst = Some p \<longrightarrow> instId p \<notin> set [4, 7])"
    using n1 n2 n3 n4 n5 n6 n7 by blast
  have run: "replaceTempUse True ?g 1 0 (FunctionArgument 0) [4, 7] (Operand 3 0) [] =
               Inr (takenOnOnePathReleased, [3])"
    by code_simp
  have fresh: "freshId ?g = 9" by code_simp
  have routed: "routeUses 3 (InstResult 9) (Inst 9 (LoadInst (FunctionArgument 0) LoadCopy) []) =
                  Inst 9 (LoadInst (FunctionArgument 0) LoadCopy) []"
               "routeUses 3 (InstResult 9) (Inst 5 (OtherInst [InstResult 3]) []) =
                  Inst 5 (OtherInst [InstResult 9]) []"
               "routeUses 3 (InstResult 9) ?li = Inst 3 (LoadInst NullValue LoadTake) []"
               "routeUses 3 (InstResult 9) (Inst 6 (DestroyAddrInst (InstResult 0)) []) =
                  Inst 6 (DestroyAddrInst (InstResult 0)) []"
    by code_simp+
  have m5: "Inst 5 (OtherInst [InstResult 3]) [] \<in> set (concat ?g)" by code_simp
  have p3: "prevInst ?g 3 = None" by code_simp
  from load_take_rewrite [THEN conjunct2, THEN conjunct1, THEN mp, OF h, of True 0 "FunctionArgument 0" "[]"]
  obtain g' where
    g: "replaceTempUse True ?g 1 0 (FunctionArgument 0) [4, 7] (Operand 3 0) [] =
          Inr (g', [] @ [instId ?li])"
      and c: "prevInst g' 1 =
                Some (routeUses (instId ?li) (InstResult (freshId ?g))
                        (Inst (freshId ?g) (LoadInst (FunctionArgument 0) LoadCopy) []))"
      and u: "\<forall>x \<in> set (concat ?g).
                lookupInst g' (instId x) = Some (routeUses (instId ?li) (InstResult (freshId ?g)) x)"
      and fr: "\<forall>frontierInst \<in> set [4::nat, 7]. \<forall>p. prevInst ?g frontierInst = Some p \<longrightarrow>
                 prevInst g' frontierInst =
                   Some (routeUses (instId ?li) (InstResult (freshId ?g)) p) \<and>
                 (if instId p = instId ?li
                  then prevInst g' (instId ?li) =
                         map_option (routeUses (instId ?li) (InstResult (freshId ?g)))
                           (prevInst ?g (instId ?li))
                  else \<exists>d. d \<notin> instId ` set (concat ?g) \<and>
                           prevInst g' (instId p) =
                             Some (Inst d (DestroyValueInst (InstResult (freshId ?g))) []))"
    by blast
  have id3: "instId ?li = 3" by simp
  from g run have eq: "g' = takenOnOnePathReleased" by simp
  have in4: "(4::nat) \<in> set [4, 7]" "(7::nat) \<in> set [4, 7]" by simp_all
  have c2: "prevInst takenOnOnePathReleased 1 =
              Some (Inst 9 (LoadInst (FunctionArgument 0) LoadCopy) [])"
    using c by (simp only: eq fresh routed id3)
  have c3: "lookupInst takenOnOnePathReleased 5 = Some (Inst 5 (OtherInst [InstResult 9]) [])"
    using u [rule_format, OF m5] by (simp add: eq fresh routed)
  have c4: "prevInst takenOnOnePathReleased 4 = Some (Inst 3 (LoadInst NullValue LoadTake) []) \<and>
            prevInst takenOnOnePathReleased 3 = None"
    using fr [rule_format, OF in4(1) p4] by (simp add: eq fresh routed p3)
  have c5: "prevInst takenOnOnePathReleased 7 = Some (Inst 6 (DestroyAddrInst (InstResult 0)) [])"
    using fr [rule_format, OF in4(2) p7] by (simp add: eq fresh routed)
  have c6: "prevInst takenOnOnePathReleased 6 = Some (Inst 10 (DestroyValueInst (InstResult 9)) [])"
    by code_simp
  let ?f = takenOnOnePath
  let ?tempInst = "Inst 0 (AllocStackInst False) []"
  have k: "uniqueIds ?f \<and>
    getCopyAddr ?f 1 = Some (FunctionArgument 0, InstResult 0, False, True) \<and>
    asAllocStack ?f (InstResult 0) = Some ?tempInst \<and>
    FunctionArgument 0 \<noteq> InstResult (instId ?tempInst) \<and>
    stripAccessMarkers twoPathExternals ?f (FunctionArgument 0) \<noteq> InstResult (instId ?tempInst) \<and>
    (\<forall>x \<in> set (concat ?f). InstResult (instId ?tempInst) \<notin> set (typeDependentOperands x)) \<and>
    collectTempUses 20 twoPathExternals ?f 1 (instId ?tempInst)
      (stripAccessMarkers twoPathExternals ?f (FunctionArgument 0))
      (getUses ?f (InstResult (instId ?tempInst))) {} = Inr (True, {}) \<and>
    checkNoSourceModification twoPathExternals ?f 1
      (stripAccessMarkers twoPathExternals ?f (FunctionArgument 0)) {} \<and>
    checkTempObjectDestroy twoPathExternals ?f (instId ?tempInst) 1 = Inr (True, [4, 7]) \<and>
    length (getUses ?f (InstResult (instId ?tempInst))) \<le> 20"
    by code_simp
  have opt: "tryOptimizeCopyIntoTemp 20 twoPathExternals ?f 1 = Inr (takenOnOnePathOptimized, True)"
    by code_simp
  have m3: "?li \<in> set (concat ?f)" by code_simp
  from load_take_rewrite [THEN conjunct2, THEN conjunct2, THEN mp, OF k]
  obtain f' where
    o: "tryOptimizeCopyIntoTemp 20 twoPathExternals ?f 1 = Inr (f', True)"
      and d: "\<forall>x \<in> set (concat ?f).
                instKind x = LoadInst (InstResult (instId ?tempInst)) LoadTake \<longrightarrow>
                lookupInst f' (instId x) = None"
    by auto
  from o opt have eq2: "f' = takenOnOnePathOptimized" by simp
  have c7: "lookupInst takenOnOnePathOptimized 3 = None"
    using d [rule_format, OF m3] by (simp add: eq2)
  from c1 run c2 c3 c4 c5 c6 opt c7 show ?thesis by blast
qed

text \<open>
  In the function the pass returns the release need not stand next to the
  frontier instruction: in \<open>takenOnTwoPaths\<close> the recognized \<^verbatim>\<open>destroy_addr\<close> is
  deleted with the temporary, and the releases of both new values stand before
  instruction 10, the one for the first load behind the one for the second.
\<close>

theorem release_not_at_frontier_counterexample:
  "checkTempObjectDestroy threePathExternals takenOnTwoPaths 0 1 = Inr (True, [4, 7, 10]) \<and>
   tryOptimizeCopyIntoTemp 30 threePathExternals takenOnTwoPaths 1 =
     Inr (takenOnTwoPathsOptimized, True) \<and>
   lookupInst takenOnTwoPathsOptimized 5 = Some (Inst 5 (OtherInst [InstResult 13]) []) \<and>
   lookupInst takenOnTwoPathsOptimized 10 = Some (Inst 10 (OtherInst []) []) \<and>
   instsBefore takenOnTwoPathsOptimized 10 =
     [Inst 18 (DestroyValueInst (InstResult 16)) [],
      Inst 15 (DestroyValueInst (InstResult 13)) []] \<and>
   prevInst takenOnTwoPathsOptimized 10 \<noteq> Some (Inst 15 (DestroyValueInst (InstResult 13)) [])"
  by code_simp

section \<open>A candidate that fails a check is left as it is\<close>








section \<open>A call that uses the temporary\<close>

lemma inoutArgumentsNoAlias_iff:
  "inoutArgumentsNoAlias ext f srcAddr args \<longleftrightarrow>
     (\<forall>(operand, argConv) \<in> set args. isInoutConvention argConv \<longrightarrow> isNoAlias ext f operand srcAddr)"
proof (induction args)
  case Nil
  then show ?case by simp
next
  case (Cons a args)
  obtain operand argConv where a: "a = (operand, argConv)" by (cases a)
  show ?case
  proof (cases "isInoutConvention argConv \<and> \<not> isNoAlias ext f operand srcAddr")
    case True
    then show ?thesis using a by auto
  next
    case False
    then have "inoutArgumentsNoAlias ext f srcAddr (a # args) =
               inoutArgumentsNoAlias ext f srcAddr args" using a by auto
    with Cons.IH False a show ?thesis by auto
  qed
qed

text \<open>
  C6, as the code has it. A use of the address by an \<^verbatim>\<open>apply\<close> or a \<^verbatim>\<open>try_apply\<close>,
  as an argument of the call, is accepted as a read, and the call joins the
  read-set, exactly when the call is in the block of the instruction that
  defines the address, the convention of the argument is guaranteed, it is not
  the case that the convention is indirect while there is no source address, and,
  when there is a source address, every argument passed inout is no-alias with
  the source address. In every other case the use is rejected and the read-set
  is left as it was.
\<close>

theorem collectLoads_apply:
  assumes "instKind user = ApplyInst callee args \<or> instKind user = TryApplyInst callee args"
    and "getArgumentConvention (instKind user) (operandNumber userOp) = Some convention"
  shows "collectLoads fuel ext f userOp user address srcAddr loadInsts =
     (if getParent f (instId user) = getParent f address \<and>
         isGuaranteedConvention convention \<and>
         \<not> (srcAddr = NullValue \<and> isIndirectConvention convention) \<and>
         (srcAddr \<noteq> NullValue \<longrightarrow>
            (\<forall>(operand, argConv) \<in> set args.
               isInoutConvention argConv \<longrightarrow> isNoAlias ext f operand srcAddr))
      then Inr (True, insert (instId user) loadInsts)
      else Inr (False, loadInsts))"
proof -
  have "collectLoads fuel ext f userOp user address srcAddr loadInsts =
          (if getParent f (instId user) \<noteq> getParent f address then Inr (False, loadInsts)
           else collectApply ext f userOp user args srcAddr loadInsts)"
    using assms(1) by auto
  then show ?thesis
    using assms(2) by (simp add: collectApply_def inoutArgumentsNoAlias_iff)
qed

theorem collectLoads_apply_witness:
  "collectLoads 0 exampleExternals calledWithTemp (Operand 3 1)
     (Inst 3 (ApplyInst (InstResult 2)
                [(InstResult 0, Indirect_In_Guaranteed), (FunctionArgument 1, Indirect_Inout)]) [])
     0 (FunctionArgument 0) {} = Inr (True, {3})"
proof -
  let ?args = "[(InstResult 0, Indirect_In_Guaranteed), (FunctionArgument 1, Indirect_Inout)]"
  let ?user = "Inst 3 (ApplyInst (InstResult 2) ?args) []"
  have k: "instKind ?user = ApplyInst (InstResult 2) ?args \<or>
           instKind ?user = TryApplyInst (InstResult 2) ?args"
    by simp
  have c: "getArgumentConvention (instKind ?user) (operandNumber (Operand 3 1)) =
             Some Indirect_In_Guaranteed" by simp
  have p: "getParent calledWithTemp (instId ?user) = getParent calledWithTemp 0"
    by code_simp
  have a: "isNoAlias exampleExternals calledWithTemp (FunctionArgument 1) (FunctionArgument 0)"
    by (simp add: exampleExternals_def)
  show ?thesis
    using collectLoads_apply [OF k c, of 0 exampleExternals calledWithTemp 0
                                "FunctionArgument 0" "{}"] p a
    by simp
qed

text \<open>
  C6, as stated, fails for a call in another block than the temporary: the
  argument is guaranteed, the source address is known and no argument is inout,
  and the use is rejected.
\<close>

theorem collectLoads_apply_other_block_counterexample:
  "collectLoads 0 exampleExternals calledInOtherBlock (Operand 4 1)
     (Inst 4 (ApplyInst (InstResult 3) [(InstResult 0, Indirect_In_Guaranteed)]) [])
     0 (FunctionArgument 0) {} = Inr (False, {}) \<and>
   getArgumentConvention (ApplyInst (InstResult 3) [(InstResult 0, Indirect_In_Guaranteed)]) 1 =
     Some Indirect_In_Guaranteed \<and>
   isGuaranteedConvention Indirect_In_Guaranteed \<and>
   FunctionArgument 0 \<noteq> NullValue \<and>
   inoutArgumentsNoAlias exampleExternals calledInOtherBlock (FunctionArgument 0)
     [(InstResult 0, Indirect_In_Guaranteed)]"
  by code_simp

section \<open>Loads of the temporary\<close>

text \<open>
  C7, as the code has it. The loop of the caller over the uses of the temporary
  skips a \<^verbatim>\<open>load [take]\<close> of the temporary: it goes on with the remaining uses
  and the same read-set, and \<open>collectLoads\<close> is not called. A \<^verbatim>\<open>load [take]\<close> that
  \<open>collectLoads\<close> is called with (the caller skips the ones of the temporary, the
  others come through a projection) is rejected. Any other load is accepted
  and joins the read-set when it is in the block of the instruction that defines
  the address it reads, and is rejected when it is in another block.
\<close>

theorem collectLoads_load:
  "(lookupInst f (getUser useOper) = Some user \<and> isLoadTake user \<longrightarrow>
      collectTempUses fuel ext f initInst tempObj srcAddr (useOper # rest) loadInsts =
      collectTempUses fuel ext f initInst tempObj srcAddr rest loadInsts) \<and>
   (instKind user = LoadInst a LoadTake \<longrightarrow>
      collectLoads fuel ext f userOp user address srcAddr loadInsts = Inr (False, loadInsts)) \<and>
   (instKind user = LoadInst a q \<and> q \<noteq> LoadTake \<longrightarrow>
      collectLoads fuel ext f userOp user address srcAddr loadInsts =
        (if getParent f (instId user) = getParent f address
         then Inr (True, insert (instId user) loadInsts)
         else Inr (False, loadInsts)))"
  by (auto simp: isLoadTake_def)

theorem collectLoads_load_witness:
  "collectTempUses 20 exampleExternals takenInOtherBlock 1 0 (FunctionArgument 0)
     [Operand 5 0] {3} = Inr (True, {3}) \<and>
   collectLoads 20 exampleExternals takenInOtherBlock (Operand 5 0)
     (Inst 5 (LoadInst (InstResult 0) LoadTake) []) 0 (FunctionArgument 0) {3} = Inr (False, {3}) \<and>
   collectLoads 20 exampleExternals takenInOtherBlock (Operand 3 0)
     (Inst 3 (LoadInst (InstResult 2) LoadCopy) []) 2 (FunctionArgument 0) {} = Inr (True, {3})"
proof -
  have l: "lookupInst takenInOtherBlock (getUser (Operand 5 0)) =
             Some (Inst 5 (LoadInst (InstResult 0) LoadTake) []) \<and>
           isLoadTake (Inst 5 (LoadInst (InstResult 0) LoadTake) [])" by code_simp
  have p: "getParent takenInOtherBlock (instId (Inst 3 (LoadInst (InstResult 2) LoadCopy) [])) =
           getParent takenInOtherBlock 2" by code_simp
  have e: "collectTempUses 20 exampleExternals takenInOtherBlock 1 0 (FunctionArgument 0) [] {3} =
             Inr (True, {3})" by simp
  show ?thesis
    using collectLoads_load [of takenInOtherBlock "Operand 5 0"
            "Inst 5 (LoadInst (InstResult 0) LoadTake) []" 20 exampleExternals 1 0
            "FunctionArgument 0" "[]" "{3}" "InstResult 0" "Operand 5 0" 0 LoadTake]
          collectLoads_load [of takenInOtherBlock "Operand 3 0"
            "Inst 3 (LoadInst (InstResult 2) LoadCopy) []" 20 exampleExternals 1 0
            "FunctionArgument 0" "[]" "{}" "InstResult 2" "Operand 3 0" 2 LoadCopy]
          l p e
    by simp
qed

text \<open>
  C7, as stated, fails for a \<^verbatim>\<open>load [copy]\<close> in another block than the temporary:
  it goes to \<open>collectLoads\<close>, which rejects it, and the classification of the
  temporary fails.
\<close>

theorem load_in_other_block_counterexample:
  "lookupInst loadedInOtherBlock 3 = Some (Inst 3 (LoadInst (InstResult 0) LoadCopy) []) \<and>
   collectLoads 20 exampleExternals loadedInOtherBlock (Operand 3 0)
     (Inst 3 (LoadInst (InstResult 0) LoadCopy) []) 0 (FunctionArgument 0) {} = Inr (False, {}) \<and>
   collectTempUses 20 exampleExternals loadedInOtherBlock 1 0 (FunctionArgument 0)
     (getUses loadedInOtherBlock (InstResult 0)) {} = Inr (False, {})"
  by code_simp

section \<open>The preconditions of the store rewrite\<close>

text \<open>
  C8. \<^verbatim>\<open>tryOptimizeStoreIntoTemp\<close> returns the function unchanged, the iterator
  after the store and false when the store is an assign, when its destination is
  not an alloc_stack, or when the alloc_stack has a dynamic lifetime: whatever the
  uses of the temporary are.
\<close>

theorem tryOptimizeStoreIntoTemp_rejects:
  "getStore f si = Some (src, dest, qualifier) \<Longrightarrow>
   qualifier = StoreAssign \<or> asAllocStack f dest = None \<or>
     (\<exists>tempInst. asAllocStack f dest = Some tempInst \<and> instKind tempInst = AllocStackInst True) \<Longrightarrow>
   tryOptimizeStoreIntoTemp fuel ext f si = Inr (f, nextInst f si, False)"
  unfolding tryOptimizeStoreIntoTemp_def by auto

theorem tryOptimizeStoreIntoTemp_rejects_witness:
  "tryOptimizeStoreIntoTemp 20 exampleExternals assignedTemp 1 = Inr (assignedTemp, Some 2, False) \<and>
   tryOptimizeStoreIntoTemp 20 exampleExternals storedToArgument 1 =
     Inr (storedToArgument, Some 2, False) \<and>
   tryOptimizeStoreIntoTemp 20 exampleExternals dynamicTemp 1 = Inr (dynamicTemp, Some 2, False)"
proof -
  have a: "getStore assignedTemp 1 = Some (FunctionArgument 0, InstResult 0, StoreAssign)"
    by code_simp
  have b: "getStore storedToArgument 1 = Some (FunctionArgument 0, FunctionArgument 1, StoreInit)"
    by code_simp
  have b': "asAllocStack storedToArgument (FunctionArgument 1) = None" by code_simp
  have c: "getStore dynamicTemp 1 = Some (FunctionArgument 0, InstResult 0, StoreInit)"
    by code_simp
  have c': "asAllocStack dynamicTemp (InstResult 0) = Some (Inst 0 (AllocStackInst True) [])"
    by code_simp
  have n: "nextInst assignedTemp 1 = Some 2" "nextInst storedToArgument 1 = Some 2"
    "nextInst dynamicTemp 1 = Some 2" by code_simp+
  show ?thesis
    using tryOptimizeStoreIntoTemp_rejects [OF a, of 20 exampleExternals]
      tryOptimizeStoreIntoTemp_rejects [OF b, of 20 exampleExternals]
      tryOptimizeStoreIntoTemp_rejects [OF c, of 20 exampleExternals] b' c' n
    by simp
qed

section \<open>Running the pass twice\<close>















section \<open>A read access to the temporary\<close>

text \<open>
  C10, as the code has it. For a use of the address by a \<^verbatim>\<open>begin_access [read]\<close>
  in the block of the instruction that defines the address, \<open>collectLoads\<close>
  returns true with the read-set it was given, for any function and any fuel: it
  does not add the \<^verbatim>\<open>begin_access\<close> and does not look at the uses of the
  \<^verbatim>\<open>begin_access\<close>. The loop of the caller then goes on with the remaining uses
  of the temporary and the same read-set: the use adds nothing to the set that
  \<^verbatim>\<open>checkNoSourceModification\<close> counts.
\<close>

theorem collectLoads_begin_access_read:
  "instKind user = BeginAccessInst a AccessRead \<and>
   getParent f (instId user) = getParent f address \<longrightarrow>
     collectLoads fuel ext f userOp user address srcAddr loadInsts = Inr (True, loadInsts) \<and>
     (lookupInst f (getUser useOper) = Some user \<and> instId user \<noteq> initInst \<and>
      address = tempObj \<longrightarrow>
        collectTempUses fuel ext f initInst tempObj srcAddr (useOper # rest) loadInsts =
        collectTempUses fuel ext f initInst tempObj srcAddr rest loadInsts)"
  by (auto simp: isLoadTake_def isDestroyAddr_def isDeallocStack_def)

theorem collectLoads_begin_access_read_witness:
  "collectLoads 0 exampleExternals readAccessScope (Operand 2 0)
     (Inst 2 (BeginAccessInst (InstResult 0) AccessRead) []) 0 (FunctionArgument 0) {} =
     Inr (True, {}) \<and>
   collectTempUses 0 exampleExternals readAccessScope 1 0 (FunctionArgument 0)
     [Operand 2 0] {} = Inr (True, {})"
proof -
  let ?user = "Inst 2 (BeginAccessInst (InstResult 0) AccessRead) []"
  have h: "instKind ?user = BeginAccessInst (InstResult 0) AccessRead \<and>
           getParent readAccessScope (instId ?user) = getParent readAccessScope 0"
    by code_simp
  have l: "lookupInst readAccessScope (getUser (Operand 2 0)) = Some ?user \<and>
           instId ?user \<noteq> 1" by code_simp
  show ?thesis
    using collectLoads_begin_access_read
            [of ?user "InstResult 0" readAccessScope 0 0 exampleExternals "Operand 2 0"
                "FunctionArgument 0" "{}" "Operand 2 0" 1 0 "[]"] h l
    by simp
qed

text \<open>
  C10, as stated, fails twice. A \<^verbatim>\<open>begin_access [read]\<close> in another block than
  the temporary is rejected. And an instruction inside a read-access scope can
  be in the read-set: in \<open>readAccessScope\<close> the call 4 stands between the
  \<^verbatim>\<open>begin_access\<close> 2 and its \<^verbatim>\<open>end_access\<close> 5 and uses the access, and it is in
  the read-set because it also uses the temporary.
\<close>

theorem read_access_scope_counterexample:
  "collectLoads 0 exampleExternals accessedInOtherBlock (Operand 3 0)
     (Inst 3 (BeginAccessInst (InstResult 0) AccessRead) []) 0 (FunctionArgument 0) {} =
     Inr (False, {}) \<and>
   collectTempUses 0 exampleExternals readAccessScope 1 0 (FunctionArgument 0)
     (getUses readAccessScope (InstResult 0)) {} = Inr (True, {4}) \<and>
   getUses readAccessScope (InstResult 2) = [Operand 4 1, Operand 5 0] \<and>
   map instId (instsAfter readAccessScope 2) = [3, 4, 5, 6, 7, 8]"
  by code_simp

end
